theory Spec2Isabelle
  imports Complex_Main "HOL-Library.FSet" "HOL-Library.Sublist"
begin

section \<open>Data model\<close>

text \<open>
  The decomposition core of storm works on a sparse transition matrix whose rows are
  lists of (column, value) entries, on the vector of nondeterministic choice indices
  (the rows of state \<open>s\<close> are \<open>[indices[s], indices[s+1])\<close>), on bit vectors over the
  states and on state blocks.

  \<^item> A matrix row is a list of entries \<open>(column, value)\<close> in the row's native order; the
    value type is left open, since neither engine reads it.
  \<^item> \<open>storm::storage::BitVector\<close> and the \<open>VectorSet\<close> behind \<open>StateBlock\<close> are finite
    sets of state indices (\<open>nat fset\<close>); both iterate in ascending order
    (\<open>sorted_list_of_fset\<close>).
  \<^item> \<open>std::vector<uint_fast64_t>\<close> used as a stack is a list whose head is \<open>back()\<close>;
    the vectors \<open>stateIndices\<close> and \<open>lowlinks\<close>, which are only ever indexed by a state,
    are total maps from states to numbers. The source indexes all of them unchecked.
  \<^item> \<open>uint_fast64_t\<close> counters are natural numbers: the only arithmetic is the increment
    of \<open>currentIndex\<close>, once per state.
\<close>

type_synonym 'v entry = "nat \<times> 'v"

type_synonym BitVector = "nat fset"

type_synonym StateBlock = "nat fset"

record 'v model =
  transitionMatrix :: "'v entry list list"
  nondeterministicChoiceIndices :: "nat list"

definition getRow :: "'v model \<Rightarrow> nat \<Rightarrow> 'v entry list" where
  "getRow m r = transitionMatrix m ! r"

text \<open>
  Modelled from the spec: \<open>AbstractModel::getRows(state)\<close> is declared outside the files
  at hand. The spec gives state \<open>s\<close> the choice rows
  \<open>[choiceIndex[s], choiceIndex[s+1])\<close>, iterated row by row in the native order; for a
  deterministic model the choice index is \<open>[0,1,\<dots>,N]\<close>.
\<close>

definition getRows :: "'v model \<Rightarrow> nat \<Rightarrow> 'v entry list" where
  "getRows m s =
     concat (map (getRow m)
       [nondeterministicChoiceIndices m ! s ..< nondeterministicChoiceIndices m ! (s + 1)])"

section \<open>The SCC engine\<close>

text \<open>
  The environment of Tarjan's algorithm (\<open>performSccDecomposition\<close>), the stacks and bit
  vectors local to one call of \<open>performSccDecompositionHelper\<close>, and \<open>this->blocks\<close>.
  An iterator into the rows of a state is the position of its entry.
\<close>

record env =
  currentIndex :: nat
  stateIndices :: "nat \<Rightarrow> nat"
  lowlinks :: "nat \<Rightarrow> nat"
  tarjanStack :: "nat list"
  tarjanStackStates :: BitVector
  visitedStates :: BitVector
  recursionStateStack :: "nat list"
  recursionIteratorStack :: "nat list"
  statesWithSelfloop :: BitVector
  statesThatCanLeaveTheirScc :: BitVector
  blocks :: "StateBlock list"

datatype label = recursionStepForward | recursionStepBackward

text \<open>The treatment of a newly discovered state (lines 119-125).\<close>

definition discover :: "nat \<Rightarrow> env \<Rightarrow> env" where
  "discover currentState e =
     e\<lparr> visitedStates := finsert currentState (visitedStates e),
        stateIndices := (stateIndices e)(currentState := currentIndex e),
        lowlinks := (lowlinks e)(currentState := currentIndex e),
        currentIndex := currentIndex e + 1,
        tarjanStack := currentState # tarjanStack e,
        tarjanStackStates := finsert currentState (tarjanStackStates e) \<rparr>"

text \<open>
  The code after the label \<open>recursionStepBackward\<close> (lines 153-160): the successor the
  saved iterator points at has been completed.
\<close>

definition stepBackward :: "bool \<Rightarrow> nat \<Rightarrow> nat \<Rightarrow> env \<Rightarrow> env" where
  "stepBackward onlyBottomSccs currentState successor e =
     (let e1 = e\<lparr> lowlinks := (lowlinks e)
                   (currentState := min (lowlinks e currentState) (lowlinks e successor)) \<rparr>
      in if onlyBottomSccs \<and> lowlinks e1 currentState \<noteq> lowlinks e1 successor
         then e1\<lparr> statesThatCanLeaveTheirScc :=
                    finsert currentState (statesThatCanLeaveTheirScc e1) \<rparr>
         else e1)"

text \<open>
  The \<open>for\<close> loop over the successors of the current state (lines 128-169), from the
  iterator position \<open>pos\<close> on; the list is what is left of the rows. It ends with
  \<open>Some pos\<close> when the entry at \<open>pos\<close> is an unvisited state of the subsystem (the
  loop is left by \<open>goto recursionStepForward\<close>), and with \<open>None\<close> at the end of the rows.
\<close>

fun successorLoop ::
  "BitVector \<Rightarrow> bool \<Rightarrow> nat \<Rightarrow> 'v entry list \<Rightarrow> nat \<Rightarrow> env \<Rightarrow> env \<times> nat option" where
  "successorLoop subsystem dropNaiveSccs currentState [] pos e = (e, None)"
| "successorLoop subsystem dropNaiveSccs currentState (successor # rest) pos e =
     (let e1 = (if dropNaiveSccs \<and> currentState = fst successor
                then e\<lparr> statesWithSelfloop := finsert currentState (statesWithSelfloop e) \<rparr>
                else e)
      in if fst successor |\<in>| subsystem then
           if fst successor |\<notin>| visitedStates e1 then (e1, Some pos)
           else if fst successor |\<in>| tarjanStackStates e1 then
             successorLoop subsystem dropNaiveSccs currentState rest (Suc pos)
               (e1\<lparr> lowlinks := (lowlinks e1)
                      (currentState := min (lowlinks e1 currentState)
                                           (stateIndices e1 (fst successor))) \<rparr>)
           else successorLoop subsystem dropNaiveSccs currentState rest (Suc pos) e1
         else successorLoop subsystem dropNaiveSccs currentState rest (Suc pos) e1)"

text \<open>
  The \<open>do \<dots> while (lastState != currentState)\<close> loop (lines 178-190) over the Tarjan
  stack; the result is the stack left, the stack's bit vector, the SCC and \<open>isBottomScc\<close>.
  The source does not test the stack for emptiness; the loop of the model stops there.
\<close>

fun popLoop ::
  "bool \<Rightarrow> BitVector \<Rightarrow> nat \<Rightarrow> nat list \<Rightarrow> BitVector \<Rightarrow> StateBlock \<Rightarrow> bool
     \<Rightarrow> nat list \<times> BitVector \<times> StateBlock \<times> bool" where
  "popLoop onlyBottomSccs canLeave currentState [] stackStates scc isBottomScc =
     ([], stackStates, scc, isBottomScc)"
| "popLoop onlyBottomSccs canLeave currentState (lastState # stack) stackStates scc isBottomScc =
     (let stackStates1 = stackStates |-| {|lastState|};
          scc1 = finsert lastState scc;
          isBottomScc1 = (if onlyBottomSccs \<and> isBottomScc \<and> lastState |\<in>| canLeave
                          then False else isBottomScc)
      in if lastState \<noteq> currentState
         then popLoop onlyBottomSccs canLeave currentState stack stackStates1 scc1 isBottomScc1
         else (stack, stackStates1, scc1, isBottomScc1))"

text \<open>\<open>*scc.begin()\<close>: the least state of the block.\<close>

definition sccBegin :: "StateBlock \<Rightarrow> nat" where
  "sccBegin scc = hd (sorted_list_of_fset scc)"

text \<open>
  The end of the loop body (lines 171-207): the SCC is popped if the current state is
  its root, kept or dropped, and the state leaves the recursion stacks.
\<close>

definition closeState :: "bool \<Rightarrow> bool \<Rightarrow> nat \<Rightarrow> env \<Rightarrow> env" where
  "closeState dropNaiveSccs onlyBottomSccs currentState e =
     (let e1 =
        (if lowlinks e currentState = stateIndices e currentState then
           (case popLoop onlyBottomSccs (statesThatCanLeaveTheirScc e) currentState
                   (tarjanStack e) (tarjanStackStates e) {||} True of
              (stack, stackStates, scc, isBottomScc) \<Rightarrow>
                (let keepScc = ((\<not> dropNaiveSccs \<or>
                                  (fcard scc > 1 \<or> sccBegin scc |\<in>| statesWithSelfloop e))
                                \<and> (\<not> onlyBottomSccs \<or> isBottomScc));
                     e2 = e\<lparr> tarjanStack := stack, tarjanStackStates := stackStates \<rparr>
                 in if keepScc then e2\<lparr> blocks := blocks e2 @ [scc] \<rparr> else e2))
         else e)
      in e1\<lparr> recursionStateStack := tl (recursionStateStack e1),
             recursionIteratorStack := tl (recursionIteratorStack e1) \<rparr>)"

text \<open>The recursive descent (lines 139-151): the iterator is saved, the successor pushed.\<close>

definition descend :: "nat \<Rightarrow> nat \<Rightarrow> env \<Rightarrow> env" where
  "descend successor pos e =
     e\<lparr> recursionIteratorStack := 0 # pos # tl (recursionIteratorStack e),
        recursionStateStack := successor # recursionStateStack e \<rparr>"

text \<open>
  Where the loop body is entered: at \<open>recursionStepForward\<close> the top of the recursion
  stack is a new state and its saved iterator is used as it is; at
  \<open>recursionStepBackward\<close> the successor under the saved iterator has returned, and the
  \<open>for\<close> loop goes on behind it.
\<close>

definition enter :: "'v model \<Rightarrow> bool \<Rightarrow> label \<Rightarrow> env \<Rightarrow> env \<times> nat" where
  "enter m onlyBottomSccs lbl e =
     (let currentState = hd (recursionStateStack e);
          successorIt = hd (recursionIteratorStack e)
      in case lbl of
           recursionStepForward \<Rightarrow> (discover currentState e, successorIt)
         | recursionStepBackward \<Rightarrow>
             (stepBackward onlyBottomSccs currentState
                (fst (getRows m currentState ! successorIt)) e, Suc successorIt))"

definition unvisited :: "BitVector \<Rightarrow> label \<Rightarrow> env \<Rightarrow> nat fset" where
  "unvisited subsystem lbl e =
     (case lbl of
        recursionStepForward \<Rightarrow>
          subsystem |-| visitedStates e |-| {|hd (recursionStateStack e)|}
      | recursionStepBackward \<Rightarrow> subsystem |-| visitedStates e)"

function helperLoop ::
  "'v model \<Rightarrow> BitVector \<Rightarrow> bool \<Rightarrow> bool \<Rightarrow> label \<Rightarrow> env \<Rightarrow> env" where
  "helperLoop m subsystem dropNaiveSccs onlyBottomSccs lbl e =
     (if recursionStateStack e = [] then e
      else
        let currentState = hd (recursionStateStack e);
            entered = enter m onlyBottomSccs lbl e;
            scanned = successorLoop subsystem dropNaiveSccs currentState
                        (drop (snd entered) (getRows m currentState)) (snd entered) (fst entered)
        in case snd scanned of
             Some pos \<Rightarrow>
               helperLoop m subsystem dropNaiveSccs onlyBottomSccs recursionStepForward
                 (descend (fst (getRows m currentState ! pos)) pos (fst scanned))
           | None \<Rightarrow>
               (let e4 = closeState dropNaiveSccs onlyBottomSccs currentState (fst scanned)
                in if recursionStateStack e4 \<noteq> []
                   then helperLoop m subsystem dropNaiveSccs onlyBottomSccs
                          recursionStepBackward e4
                   else e4))"
  by pat_completeness auto

subsection \<open>Termination of the traversal\<close>

text \<open>
  Every descent visits a state of the subsystem that was unvisited, and every return
  shortens the recursion stack.
\<close>

lemma successorLoop_frame:
  "successorLoop sub dn cur es pos e = (e', r) \<Longrightarrow>
     visitedStates e' = visitedStates e \<and> recursionStateStack e' = recursionStateStack e
     \<and> recursionIteratorStack e' = recursionIteratorStack e
     \<and> tarjanStack e' = tarjanStack e \<and> tarjanStackStates e' = tarjanStackStates e
     \<and> stateIndices e' = stateIndices e \<and> currentIndex e' = currentIndex e
     \<and> blocks e' = blocks e
     \<and> statesThatCanLeaveTheirScc e' = statesThatCanLeaveTheirScc e"
  by (induction es arbitrary: pos e) (auto simp: Let_def split: if_splits)

lemma successorLoop_Some:
  "successorLoop sub dn cur es pos e = (e', Some p) \<Longrightarrow>
     pos \<le> p \<and> p < pos + length es \<and> fst (es ! (p - pos)) |\<in>| sub
     \<and> fst (es ! (p - pos)) |\<notin>| visitedStates e"
proof (induction es arbitrary: pos e)
  case Nil then show ?case by simp
next
  case (Cons a es)
  show ?case
  proof (cases "fst a |\<in>| sub \<and> fst a |\<notin>| visitedStates e")
    case True
    with Cons.prems show ?thesis by (auto simp: Let_def split: if_splits)
  next
    case False
    then obtain e1 where r: "successorLoop sub dn cur es (Suc pos) e1 = (e', Some p)"
      and v: "visitedStates e1 = visitedStates e"
      using Cons.prems by (auto simp: Let_def split: if_splits)
    from Cons.IH[OF r] v show ?thesis
      by (auto simp: nth_Cons' Suc_diff_le)
  qed
qed

lemma closeState_frame:
  "visitedStates (closeState dn ob cur e) = visitedStates e"
  "recursionStateStack (closeState dn ob cur e) = tl (recursionStateStack e)"
  "recursionIteratorStack (closeState dn ob cur e) = tl (recursionIteratorStack e)"
  by (auto simp: closeState_def Let_def split: prod.splits)

lemma enter_frame:
  "recursionStateStack (fst (enter m ob lbl e)) = recursionStateStack e"
  "visitedStates (fst (enter m ob lbl e)) =
     (case lbl of recursionStepForward \<Rightarrow> finsert (hd (recursionStateStack e)) (visitedStates e)
      | recursionStepBackward \<Rightarrow> visitedStates e)"
  by (auto simp: enter_def discover_def stepBackward_def Let_def split: label.splits)

lemma unvisited_descend:
  assumes "c |\<in>| sub" "c |\<notin>| visitedStates e2"
    and "visitedStates e2 = (case lbl of
           recursionStepForward \<Rightarrow> finsert (hd (recursionStateStack e)) (visitedStates e)
         | recursionStepBackward \<Rightarrow> visitedStates e)"
  shows "fcard (unvisited sub recursionStepForward (descend c pos e2)) < fcard (unvisited sub lbl e)"
proof -
  have eq: "unvisited sub recursionStepForward (descend c pos e2) = unvisited sub lbl e |-| {|c|}"
    using assms(3) by (cases lbl) (auto simp: unvisited_def descend_def)
  have "c |\<in>| unvisited sub lbl e"
    using assms by (cases lbl) (auto simp: unvisited_def)
  then show ?thesis unfolding eq by (rule fcard_fminus1_less)
qed

lemma unvisited_return:
  assumes "visitedStates e4 = (case lbl of
           recursionStepForward \<Rightarrow> finsert (hd (recursionStateStack e)) (visitedStates e)
         | recursionStepBackward \<Rightarrow> visitedStates e)"
  shows "fcard (unvisited sub recursionStepBackward e4) \<le> fcard (unvisited sub lbl e)"
proof -
  have "unvisited sub recursionStepBackward e4 |\<subseteq>| unvisited sub lbl e"
    using assms by (cases lbl) (auto simp: unvisited_def)
  then show ?thesis by (rule fcard_mono)
qed

termination helperLoop
proof (relation "measures [\<lambda>(m, sub, dn, ob, lbl, e). fcard (unvisited sub lbl e),
                          \<lambda>(m, sub, dn, ob, lbl, e). length (recursionStateStack e)]", goal_cases)
  case 1 show ?case by simp
next
  case (3 m sub dn ob lbl e cur entered scanned pos)
  have "snd scanned = Some pos" using 3 by blast
  then obtain e2 where sc: "scanned = (e2, Some pos)" by (cases scanned) auto
  have sl: "successorLoop sub dn cur (drop (snd entered) (getRows m cur)) (snd entered) (fst entered) = (e2, Some pos)"
    using 3(4) sc by simp
  from successorLoop_Some[OF sl] successorLoop_frame[OF sl]
  have a: "snd entered \<le> pos" "pos < snd entered + length (drop (snd entered) (getRows m cur))"
    and b: "fst (drop (snd entered) (getRows m cur) ! (pos - snd entered)) |\<in>| sub"
    and c: "fst (drop (snd entered) (getRows m cur) ! (pos - snd entered)) |\<notin>| visitedStates (fst entered)"
    and d: "visitedStates e2 = visitedStates (fst entered)" by auto
  from a have idx: "drop (snd entered) (getRows m cur) ! (pos - snd entered) = getRows m cur ! pos"
    by simp
  let ?c = "fst (getRows m cur ! pos)"
  from b c idx d have cs: "?c |\<in>| sub" "?c |\<notin>| visitedStates e2" by auto
  have ve: "visitedStates e2 = (case lbl of
           recursionStepForward \<Rightarrow> finsert (hd (recursionStateStack e)) (visitedStates e)
         | recursionStepBackward \<Rightarrow> visitedStates e)"
    unfolding d 3(3) by (rule enter_frame(2))
  from unvisited_descend[OF cs ve]
  show ?case using sc by simp
next
  case (2 m sub dn ob lbl e cur entered scanned e4)
  obtain e2 r where sc: "scanned = (e2, r)" by (cases scanned)
  have sl: "successorLoop sub dn cur (drop (snd entered) (getRows m cur)) (snd entered) (fst entered) = (e2, r)"
    using 2(4) sc by simp
  from successorLoop_frame[OF sl] have d: "visitedStates e2 = visitedStates (fst entered)"
    "recursionStateStack e2 = recursionStateStack (fst entered)" by auto
  have re: "recursionStateStack (fst entered) = recursionStateStack e"
    unfolding 2(3) by (rule enter_frame(1))
  have v4: "visitedStates e4 = visitedStates (fst entered)"
    "recursionStateStack e4 = tl (recursionStateStack e)"
    unfolding 2(6) sc by (simp_all add: closeState_frame d re)
  have ve: "visitedStates e4 = (case lbl of
           recursionStepForward \<Rightarrow> finsert (hd (recursionStateStack e)) (visitedStates e)
         | recursionStepBackward \<Rightarrow> visitedStates e)"
    unfolding v4 2(3) by (rule enter_frame(2))
  have "length (recursionStateStack e4) < length (recursionStateStack e)"
    using v4 2(1) by simp
  with unvisited_return[OF ve, of sub] show ?case by auto
qed

declare helperLoop.simps [simp del]


text \<open>
  \<open>performSccDecompositionHelper\<close> (lines 87-219): the recursion stacks and the two bit
  vectors of the options are local to the call. (\<open>statesInStack\<close> is written and never
  read; it is left out.)
\<close>

definition performSccDecompositionHelper ::
  "'v model \<Rightarrow> nat \<Rightarrow> BitVector \<Rightarrow> bool \<Rightarrow> bool \<Rightarrow> env \<Rightarrow> env" where
  "performSccDecompositionHelper m startState subsystem dropNaiveSccs onlyBottomSccs e =
     helperLoop m subsystem dropNaiveSccs onlyBottomSccs recursionStepForward
       (e\<lparr> recursionStateStack := [startState],
           recursionIteratorStack := [0],
           statesWithSelfloop := {||},
           statesThatCanLeaveTheirScc := {||} \<rparr>)"

definition initialEnv :: env where
  "initialEnv =
     \<lparr> currentIndex = 0, stateIndices = (\<lambda>_. 0), lowlinks = (\<lambda>_. 0), tarjanStack = [],
       tarjanStackStates = {||}, visitedStates = {||}, recursionStateStack = [],
       recursionIteratorStack = [], statesWithSelfloop = {||},
       statesThatCanLeaveTheirScc = {||}, blocks = [] \<rparr>"

text \<open>The search is started from every unvisited state of the subsystem (lines 63-69).\<close>

definition startSearch :: "'v model \<Rightarrow> BitVector \<Rightarrow> bool \<Rightarrow> bool \<Rightarrow> nat \<Rightarrow> env \<Rightarrow> env" where
  "startSearch m subsystem dropNaiveSccs onlyBottomSccs state e =
     (if state |\<notin>| visitedStates e
      then performSccDecompositionHelper m state subsystem dropNaiveSccs onlyBottomSccs e
      else e)"

definition performSccDecomposition ::
  "'v model \<Rightarrow> BitVector \<Rightarrow> bool \<Rightarrow> bool \<Rightarrow> StateBlock list" where
  "performSccDecomposition m subsystem dropNaiveSccs onlyBottomSccs =
     blocks (fold (startSearch m subsystem dropNaiveSccs onlyBottomSccs)
                  (sorted_list_of_fset subsystem) initialEnv)"

subsection \<open>Blocks of the SCC engine are nonempty, disjoint and inside the subsystem\<close>

text \<open>
  Whatever the options, a block is popped from the Tarjan stack, which holds visited
  states of the subsystem, each once; a state popped is never pushed again.
\<close>

fun disjointBlocks :: "StateBlock list \<Rightarrow> bool" where
  "disjointBlocks [] = True"
| "disjointBlocks (B # Bs) = ((\<forall>B' \<in> set Bs. B |\<inter>| B' = {||}) \<and> disjointBlocks Bs)"

lemma disjointBlocks_snoc:
  "disjointBlocks (Bs @ [B]) = (disjointBlocks Bs \<and> (\<forall>B' \<in> set Bs. B' |\<inter>| B = {||}))"
  by (induction Bs) auto

lemma disjointBlocks_fcard:
  "disjointBlocks Bs \<Longrightarrow> \<forall>B \<in> set Bs. B |\<subseteq>| K \<Longrightarrow> sum_list (map fcard Bs) \<le> fcard K"
proof (induction Bs arbitrary: K)
  case Nil then show ?case by simp
next
  case (Cons B Bs)
  have "\<forall>B' \<in> set Bs. B' |\<subseteq>| K |-| B"
    using Cons.prems by auto
  with Cons have "sum_list (map fcard Bs) \<le> fcard (K |-| B)" by simp
  moreover have "fcard (K |-| B) + fcard B = fcard K"
    using Cons.prems(2) fcard_funion_disjoint[of "K |-| B" B]
    by (simp add: funion_absorb2 fsubset_funion_eq inf_commute sup_commute) 
  ultimately show ?case by simp
qed

definition sccInv :: "BitVector \<Rightarrow> env \<Rightarrow> bool" where
  "sccInv subsystem e \<longleftrightarrow>
     distinct (tarjanStack e) \<and> set (tarjanStack e) \<subseteq> fset (visitedStates e)
     \<and> visitedStates e |\<subseteq>| subsystem
     \<and> (\<forall>B \<in> set (blocks e). B \<noteq> {||} \<and> B |\<subseteq>| visitedStates e
            \<and> fset B \<inter> set (tarjanStack e) = {})
     \<and> disjointBlocks (blocks e)"

lemma popLoop_split:
  assumes "cur \<in> set stack"
  shows "\<exists>pre post. stack = pre @ cur # post \<and> cur \<notin> set pre
           \<and> popLoop ob cl cur stack ss scc ib =
               (post, ss |-| fset_of_list (pre @ [cur]), scc |\<union>| fset_of_list (pre @ [cur]),
                ib \<and> \<not> (ob \<and> (\<exists>x \<in> set (pre @ [cur]). x |\<in>| cl)))"
  using assms
proof (induction stack arbitrary: ss scc ib)
  case Nil then show ?case by simp
next
  case (Cons x stack)
  show ?case
  proof (cases "x = cur")
    case True
    have "x # stack = [] @ cur # stack \<and> cur \<notin> set []
       \<and> popLoop ob cl cur (x # stack) ss scc ib =
               (stack, ss |-| fset_of_list ([] @ [cur]), scc |\<union>| fset_of_list ([] @ [cur]),
                ib \<and> \<not> (ob \<and> (\<exists>x \<in> set ([] @ [cur]). x |\<in>| cl)))"
      using True by (auto simp: Let_def)
    then show ?thesis by blast
  next
    case False
    with Cons.prems have "cur \<in> set stack" by simp
    from Cons.IH[OF this, of "ss |-| {|x|}" "finsert x scc"
        "if ob \<and> ib \<and> x |\<in>| cl then False else ib"]
    obtain pre post where st: "stack = pre @ cur # post" and np: "cur \<notin> set pre"
      and pl: "popLoop ob cl cur stack (ss |-| {|x|}) (finsert x scc)
                 (if ob \<and> ib \<and> x |\<in>| cl then False else ib) =
               (post, ss |-| {|x|} |-| fset_of_list (pre @ [cur]),
                finsert x scc |\<union>| fset_of_list (pre @ [cur]),
                (if ob \<and> ib \<and> x |\<in>| cl then False else ib)
                  \<and> \<not> (ob \<and> (\<exists>x \<in> set (pre @ [cur]). x |\<in>| cl)))"
      by blast
    have "x # stack = (x # pre) @ cur # post \<and> cur \<notin> set (x # pre)
       \<and> popLoop ob cl cur (x # stack) ss scc ib =
               (post, ss |-| fset_of_list ((x # pre) @ [cur]),
                scc |\<union>| fset_of_list ((x # pre) @ [cur]),
                ib \<and> \<not> (ob \<and> (\<exists>x \<in> set ((x # pre) @ [cur]). x |\<in>| cl)))"
      using False st np pl by (auto simp: Let_def)
    then show ?thesis by blast
  qed
qed

lemma subseq_pop:
  "cur \<notin> set pre \<Longrightarrow> subseq (cur # rs) (pre @ cur # post) \<Longrightarrow> subseq rs post"
  by (induction pre) auto


lemma helperLoop_rule:
  assumes init: "I lbl e"
    and descendI: "\<And>lbl e e1 it e2 pos.
        I lbl e \<Longrightarrow> recursionStateStack e \<noteq> [] \<Longrightarrow> enter m ob lbl e = (e1, it) \<Longrightarrow>
        successorLoop sub dn (hd (recursionStateStack e))
          (drop it (getRows m (hd (recursionStateStack e)))) it e1 = (e2, Some pos) \<Longrightarrow>
        I recursionStepForward
          (descend (fst (getRows m (hd (recursionStateStack e)) ! pos)) pos e2)"
    and closeI: "\<And>lbl e e1 it e2.
        I lbl e \<Longrightarrow> recursionStateStack e \<noteq> [] \<Longrightarrow> enter m ob lbl e = (e1, it) \<Longrightarrow>
        successorLoop sub dn (hd (recursionStateStack e))
          (drop it (getRows m (hd (recursionStateStack e)))) it e1 = (e2, None) \<Longrightarrow>
        (if recursionStateStack (closeState dn ob (hd (recursionStateStack e)) e2) \<noteq> []
         then I recursionStepBackward (closeState dn ob (hd (recursionStateStack e)) e2)
         else Q (closeState dn ob (hd (recursionStateStack e)) e2))"
    and emptyI: "\<And>lbl e. I lbl e \<Longrightarrow> recursionStateStack e = [] \<Longrightarrow> Q e"
  shows "Q (helperLoop m sub dn ob lbl e)"
  using assms
proof (induction m sub dn ob lbl e rule: helperLoop.induct)
  case (1 m sub dn ob lbl e)
  note descendI = "1.prems"(2) and closeI = "1.prems"(3) and emptyI = "1.prems"(4)
  show ?case
  proof (cases "recursionStateStack e = []")
    case True
    then have "helperLoop m sub dn ob lbl e = e"
      by (subst helperLoop.simps) simp
    with emptyI[OF "1.prems"(1) True] show ?thesis by simp
  next
    case False
    define cur where "cur = hd (recursionStateStack e)"
    define entered where "entered = enter m ob lbl e"
    define scanned where "scanned = successorLoop sub dn cur
        (drop (snd entered) (getRows m cur)) (snd entered) (fst entered)"
    have en: "enter m ob lbl e = (fst entered, snd entered)" by (simp add: entered_def)
    show ?thesis
    proof (cases "snd scanned")
      case (Some pos)
      then have sc: "successorLoop sub dn (hd (recursionStateStack e))
          (drop (snd entered) (getRows m (hd (recursionStateStack e)))) (snd entered) (fst entered)
           = (fst scanned, Some pos)"
        unfolding scanned_def cur_def by (metis prod.collapse)
      have eq: "helperLoop m sub dn ob lbl e =
          helperLoop m sub dn ob recursionStepForward
            (descend (fst (getRows m cur ! pos)) pos (fst scanned))"
        using False Some
        by (subst helperLoop.simps) (simp add: Let_def cur_def entered_def scanned_def)
      have "I recursionStepForward (descend (fst (getRows m cur ! pos)) pos (fst scanned))"
        unfolding cur_def by (rule descendI[OF "1.prems"(1) False en sc])
      from "1.IH"(2)[OF False cur_def entered_def scanned_def Some this descendI closeI emptyI]
      show ?thesis unfolding eq .
    next
      case None
      then have sc: "successorLoop sub dn (hd (recursionStateStack e))
          (drop (snd entered) (getRows m (hd (recursionStateStack e)))) (snd entered) (fst entered)
           = (fst scanned, None)"
        unfolding scanned_def cur_def by (metis prod.collapse)
      define e4 where "e4 = closeState dn ob cur (fst scanned)"
      have eq: "helperLoop m sub dn ob lbl e =
          (if recursionStateStack e4 \<noteq> [] then helperLoop m sub dn ob recursionStepBackward e4
           else e4)"
        using False None
        by (subst helperLoop.simps) (simp add: Let_def cur_def entered_def scanned_def e4_def)
      note cl = closeI[OF "1.prems"(1) False en sc, folded cur_def, folded e4_def]
      show ?thesis
      proof (cases "recursionStateStack e4 = []")
        case True
        with cl eq show ?thesis by simp
      next
        case F: False
        with cl have "I recursionStepBackward e4" by simp
        from "1.IH"(1)[OF False cur_def entered_def scanned_def None e4_def F this descendI closeI emptyI]
        show ?thesis using eq F by simp
      qed
    qed
  qed
qed


definition recInv :: "label \<Rightarrow> BitVector \<Rightarrow> env \<Rightarrow> bool" where
  "recInv lbl subsystem e \<longleftrightarrow>
     (case lbl of
        recursionStepForward \<Rightarrow>
          recursionStateStack e \<noteq> [] \<longrightarrow>
            hd (recursionStateStack e) |\<in>| subsystem
            \<and> hd (recursionStateStack e) |\<notin>| visitedStates e
            \<and> subseq (tl (recursionStateStack e)) (tarjanStack e)
      | recursionStepBackward \<Rightarrow> subseq (recursionStateStack e) (tarjanStack e))"

lemma sccInv_cong:
  "tarjanStack e' = tarjanStack e \<Longrightarrow> visitedStates e' = visitedStates e \<Longrightarrow>
   blocks e' = blocks e \<Longrightarrow> sccInv sub e' = sccInv sub e"
  by (simp add: sccInv_def)

lemma sccInv_discover:
  assumes "sccInv sub e" "c |\<in>| sub" "c |\<notin>| visitedStates e"
  shows "sccInv sub (discover c e)"
  using assms unfolding sccInv_def discover_def by auto

lemma enter_sccInv:
  assumes "sccInv sub e" "recInv lbl sub e" "recursionStateStack e \<noteq> []"
    and "enter m ob lbl e = (e1, it)"
  shows "sccInv sub e1 \<and> subseq (recursionStateStack e1) (tarjanStack e1)
         \<and> recursionStateStack e1 = recursionStateStack e"
proof (cases lbl)
  case recursionStepForward
  with assms(4) have e1: "e1 = discover (hd (recursionStateStack e)) e"
    by (simp add: enter_def Let_def)
  from assms(2,3) recursionStepForward
  have h: "hd (recursionStateStack e) |\<in>| sub" "hd (recursionStateStack e) |\<notin>| visitedStates e"
    "subseq (tl (recursionStateStack e)) (tarjanStack e)"
    by (auto simp: recInv_def)
  have "subseq (hd (recursionStateStack e) # tl (recursionStateStack e))
          (hd (recursionStateStack e) # tarjanStack e)"
    using h(3) by simp
  then have "subseq (recursionStateStack e1) (tarjanStack e1)"
    using assms(3) by (simp add: e1 discover_def)
  moreover have "recursionStateStack e1 = recursionStateStack e"
    by (simp add: e1 discover_def)
  ultimately show ?thesis using sccInv_discover[OF assms(1) h(1,2)] e1 by simp
next
  case recursionStepBackward
  with assms(4) have e1: "e1 = stepBackward ob (hd (recursionStateStack e))
      (fst (getRows m (hd (recursionStateStack e)) ! hd (recursionIteratorStack e))) e"
    by (simp add: enter_def Let_def)
  have fr: "tarjanStack e1 = tarjanStack e" "visitedStates e1 = visitedStates e"
    "blocks e1 = blocks e" "recursionStateStack e1 = recursionStateStack e"
    by (simp_all add: e1 stepBackward_def Let_def)
  from assms(2) recursionStepBackward have "subseq (recursionStateStack e) (tarjanStack e)"
    by (simp add: recInv_def)
  then show ?thesis using fr sccInv_cong[OF fr(1,2,3), of sub] assms(1) by simp
qed

lemma closeState_sccInv:
  assumes inv: "sccInv sub e" and sub: "subseq (recursionStateStack e) (tarjanStack e)"
    and ne: "recursionStateStack e \<noteq> []"
  shows "sccInv sub (closeState dn ob (hd (recursionStateStack e)) e)
         \<and> subseq (recursionStateStack (closeState dn ob (hd (recursionStateStack e)) e))
                   (tarjanStack (closeState dn ob (hd (recursionStateStack e)) e))"
proof -
  define cur where "cur = hd (recursionStateStack e)"
  define rs where "rs = tl (recursionStateStack e)"
  have rec: "recursionStateStack e = cur # rs" using ne by (simp add: cur_def rs_def)
  show ?thesis
  proof (cases "lowlinks e cur = stateIndices e cur")
    case False
    then have fr: "tarjanStack (closeState dn ob cur e) = tarjanStack e"
      "visitedStates (closeState dn ob cur e) = visitedStates e"
      "blocks (closeState dn ob cur e) = blocks e"
      "recursionStateStack (closeState dn ob cur e) = rs"
      by (simp_all add: closeState_def rs_def)
    have "subseq rs (tarjanStack e)" using sub rec by (metis subseq_Cons')
    then show ?thesis using fr sccInv_cong[OF fr(1,2,3), of sub] inv
      unfolding cur_def[symmetric] by simp
  next
    case True
    have "cur \<in> set (tarjanStack e)"
      using list_emb_set[OF sub, of cur] rec by auto
    from popLoop_split[OF this, of ob "statesThatCanLeaveTheirScc e" "tarjanStackStates e" "{||}" True]
    obtain pre post where st: "tarjanStack e = pre @ cur # post" and np: "cur \<notin> set pre"
      and pl: "popLoop ob (statesThatCanLeaveTheirScc e) cur (tarjanStack e) (tarjanStackStates e) {||} True =
               (post, tarjanStackStates e |-| fset_of_list (pre @ [cur]),
                {||} |\<union>| fset_of_list (pre @ [cur]),
                True \<and> \<not> (ob \<and> (\<exists>x \<in> set (pre @ [cur]). x |\<in>| statesThatCanLeaveTheirScc e)))"
      by blast
    define scc where "scc = fset_of_list (pre @ [cur])"
    have fr: "tarjanStack (closeState dn ob cur e) = post"
      "visitedStates (closeState dn ob cur e) = visitedStates e"
      "recursionStateStack (closeState dn ob cur e) = rs"
      "blocks (closeState dn ob cur e) = blocks e \<or> blocks (closeState dn ob cur e) = blocks e @ [scc]"
      using True pl by (auto simp: closeState_def Let_def rs_def scc_def)
    have sq: "subseq rs post" using sub np unfolding rec st by (rule subseq_pop[rotated])
    have i1: "sccInv sub (e\<lparr>tarjanStack := post\<rparr>)"
      using inv unfolding sccInv_def st by auto
    have i2: "sccInv sub (e\<lparr>tarjanStack := post, blocks := blocks e @ [scc]\<rparr>)"
      using inv unfolding sccInv_def st scc_def
      by (auto simp: disjointBlocks_snoc fset_of_list.rep_eq) blast
    have "sccInv sub (closeState dn ob cur e)"
    proof -
      from fr(4) show ?thesis
      proof
        assume b: "blocks (closeState dn ob cur e) = blocks e"
        have "sccInv sub (closeState dn ob cur e) = sccInv sub (e\<lparr>tarjanStack := post\<rparr>)"
          by (rule sccInv_cong) (simp_all add: fr b)
        with i1 show ?thesis by simp
      next
        assume b: "blocks (closeState dn ob cur e) = blocks e @ [scc]"
        have "sccInv sub (closeState dn ob cur e)
               = sccInv sub (e\<lparr>tarjanStack := post, blocks := blocks e @ [scc]\<rparr>)"
          by (rule sccInv_cong) (simp_all add: fr b)
        with i2 show ?thesis by simp
      qed
    qed
    then show ?thesis using sq fr unfolding cur_def[symmetric] by simp
  qed
qed

lemma helperLoop_sccInv:
  assumes "sccInv sub e" "recInv lbl sub e"
  shows "sccInv sub (helperLoop m sub dn ob lbl e)"
proof (rule helperLoop_rule[where I = "\<lambda>lbl e. sccInv sub e \<and> recInv lbl sub e"
        and Q = "sccInv sub"], goal_cases)
  case 1 show ?case using assms by simp
next
  case (2 lbl e e1 it e2 pos)
  from enter_sccInv[OF _ _ 2(2,3)] 2(1)
  have e1: "sccInv sub e1" "subseq (recursionStateStack e1) (tarjanStack e1)"
    "recursionStateStack e1 = recursionStateStack e" by auto
  note fr = successorLoop_frame[OF 2(4)]
  from successorLoop_Some[OF 2(4)]
  have a: "it \<le> pos" "pos < it + length (drop it (getRows m (hd (recursionStateStack e))))"
    and b: "fst (drop it (getRows m (hd (recursionStateStack e))) ! (pos - it)) |\<in>| sub"
    and c: "fst (drop it (getRows m (hd (recursionStateStack e))) ! (pos - it)) |\<notin>| visitedStates e1"
    by auto
  from a have idx: "drop it (getRows m (hd (recursionStateStack e))) ! (pos - it)
      = getRows m (hd (recursionStateStack e)) ! pos" by simp
  let ?c = "fst (getRows m (hd (recursionStateStack e)) ! pos)"
  have "sccInv sub e2" using sccInv_cong[of e2 e1 sub] fr e1(1) by simp
  then have "sccInv sub (descend ?c pos e2)"
    using sccInv_cong[of "descend ?c pos e2" e2 sub] by (simp add: descend_def)
  moreover have "recInv recursionStepForward sub (descend ?c pos e2)"
    using b c idx fr e1(2,3) by (simp add: recInv_def descend_def)
  ultimately show ?case by simp
next
  case (3 lbl e e1 it e2)
  from enter_sccInv[OF _ _ 3(2,3)] 3(1)
  have e1: "sccInv sub e1" "subseq (recursionStateStack e1) (tarjanStack e1)"
    "recursionStateStack e1 = recursionStateStack e" by auto
  note fr = successorLoop_frame[OF 3(4)]
  have e2: "sccInv sub e2" "subseq (recursionStateStack e2) (tarjanStack e2)"
    "recursionStateStack e2 = recursionStateStack e"
    using sccInv_cong[of e2 e1 sub] fr e1 by simp_all
  from closeState_sccInv[OF e2(1,2), of dn ob] 3(2) e2(3)
  show ?case by (simp add: recInv_def)
next
  case (4 lbl e)
  then show ?case by simp
qed

lemma sccInv_initialEnv: "sccInv sub initialEnv"
  by (simp add: sccInv_def initialEnv_def)

lemma startSearch_sccInv:
  assumes "sccInv sub e" "state |\<in>| sub"
  shows "sccInv sub (startSearch m sub dn ob state e)"
proof (cases "state |\<in>| visitedStates e")
  case True then show ?thesis using assms by (simp add: startSearch_def)
next
  case False
  let ?e = "e\<lparr> recursionStateStack := [state], recursionIteratorStack := [0],
           statesWithSelfloop := {||}, statesThatCanLeaveTheirScc := {||} \<rparr>"
  have "sccInv sub ?e" using assms(1) sccInv_cong[of ?e e sub] by simp
  moreover have "recInv recursionStepForward sub ?e"
    using False assms(2) by (simp add: recInv_def)
  ultimately show ?thesis using False
    by (simp add: startSearch_def performSccDecompositionHelper_def helperLoop_sccInv)
qed

lemma fold_startSearch_sccInv:
  "sccInv sub e \<Longrightarrow> set xs \<subseteq> fset sub \<Longrightarrow>
   sccInv sub (fold (startSearch m sub dn ob) xs e)"
  by (induction xs arbitrary: e) (auto simp: startSearch_sccInv)

lemma performSccDecomposition_sccInv:
  "sccInv sub (fold (startSearch m sub dn ob) (sorted_list_of_fset sub) initialEnv)"
  by (rule fold_startSearch_sccInv[OF sccInv_initialEnv]) simp

lemma performSccDecomposition_block:
  assumes "B \<in> set (performSccDecomposition m sub dn ob)"
  shows "B \<noteq> {||}" "B |\<subseteq>| sub"
  using assms performSccDecomposition_sccInv[of sub m dn ob]
  unfolding performSccDecomposition_def sccInv_def by auto

lemma performSccDecomposition_disjoint:
  "disjointBlocks (performSccDecomposition m sub dn ob)"
  using performSccDecomposition_sccInv[of sub m dn ob]
  unfolding performSccDecomposition_def sccInv_def by auto

section \<open>The MEC engine\<close>

text \<open>
  Modelled from the spec: the class \<open>MaximalEndComponent\<close> is declared outside the files
  at hand. The spec makes it a mapping from a state to the set of its retained choices,
  filled by \<open>addState(s, choices)\<close>; here it is the list of the pairs added, in the order
  of the calls.
\<close>

type_synonym MaximalEndComponent = "(nat \<times> nat list) list"

text \<open>The choices \<open>[indices[state], indices[state + 1])\<close> of a state (lines 83 and 145).\<close>

definition choicesOf :: "'v model \<Rightarrow> nat \<Rightarrow> nat list" where
  "choicesOf m state =
     [nondeterministicChoiceIndices m ! state ..< nondeterministicChoiceIndices m ! (state + 1)]"

text \<open>Lines 84-90 and 146-152: every entry of the row of the choice is in the block.\<close>

definition choiceContainedInMEC :: "'v model \<Rightarrow> StateBlock \<Rightarrow> nat \<Rightarrow> bool" where
  "choiceContainedInMEC m scc choice = list_all (\<lambda>entry. fst entry |\<in>| scc) (getRow m choice)"

text \<open>Lines 81-97: some choice of the state is contained in the block.\<close>

definition keepStateInMEC :: "'v model \<Rightarrow> StateBlock \<Rightarrow> nat \<Rightarrow> bool" where
  "keepStateInMEC m scc state = list_ex (choiceContainedInMEC m scc) (choicesOf m state)"

text \<open>Lines 78-102: the states to check that cannot be kept.\<close>

definition statesToRemoveOf :: "'v model \<Rightarrow> StateBlock \<Rightarrow> BitVector \<Rightarrow> BitVector" where
  "statesToRemoveOf m scc statesToCheck =
     ffilter (\<lambda>state. \<not> keepStateInMEC m scc state) statesToCheck"

text \<open>
  The matrix has one row per choice. The rows read in lines 85 and 147 are those of the
  choices \<open>[indices[state], indices[state + 1])\<close> of a state, which the matrix has
  whenever the choice indices fit it. Line 111 instead reads
  \<open>transitionMatrix.getRow(state)\<close>, the row whose index is the number of a removed
  state, and a model in which some states have no choice may have fewer rows than
  states: the matrix need not have that row. The source reads it unchecked; here the read of a row
  that the matrix does not have is the error \<open>RowOutOfRange\<close>, which ends the run.
\<close>

datatype error = RowOutOfRange

definition getRowChecked :: "'v model \<Rightarrow> nat \<Rightarrow> error + 'v entry list" where
  "getRowChecked m r =
     (if r < length (transitionMatrix m) then Inr (getRow m r) else Inl RowOutOfRange)"

text \<open>
  Lines 110-116: the states to reconsider. For every removed state, in ascending order,
  the loop reads the row whose index is the number of the state and sets the bit of each
  entry that the block (after the erasure) still contains.
\<close>

fun reconsiderLoop ::
  "'v model \<Rightarrow> StateBlock \<Rightarrow> nat list \<Rightarrow> BitVector \<Rightarrow> error + BitVector" where
  "reconsiderLoop m scc [] statesToCheck = Inr statesToCheck"
| "reconsiderLoop m scc (state # states) statesToCheck =
     (case getRowChecked m state of
        Inl e \<Rightarrow> Inl e
      | Inr row \<Rightarrow>
          reconsiderLoop m scc states
            (statesToCheck |\<union>| fset_of_list (filter (\<lambda>s. s |\<in>| scc) (map fst row))))"

text \<open>Lines 109-116: \<open>statesToCheck.clear()\<close>, then the loop over the removed states.\<close>

definition reconsider :: "'v model \<Rightarrow> StateBlock \<Rightarrow> BitVector \<Rightarrow> error + BitVector" where
  "reconsider m scc statesToRemove =
     reconsiderLoop m scc (sorted_list_of_fset statesToRemove) {||}"

text \<open>The loop \<open>while (!statesToCheck.empty())\<close> (lines 77-117) on one SCC.\<close>

function pruneLoop ::
  "'v model \<Rightarrow> StateBlock \<times> BitVector \<times> bool \<Rightarrow> error + StateBlock \<times> BitVector \<times> bool" where
  "pruneLoop m (scc, statesToCheck, mecChanged) =
     (if statesToCheck = {||} then Inr (scc, statesToCheck, mecChanged)
      else
        let statesToRemove = statesToRemoveOf m scc statesToCheck;
            mecChanged1 = (mecChanged \<or> statesToRemove \<noteq> {||});
            scc1 = scc |-| statesToRemove
        in case reconsider m scc1 statesToRemove of
             Inl e \<Rightarrow> Inl e
           | Inr statesToCheck1 \<Rightarrow> pruneLoop m (scc1, statesToCheck1, mecChanged1))"
  by pat_completeness auto

lemma reconsiderLoop_subset:
  "reconsiderLoop m scc states tc = Inr tc' \<Longrightarrow> tc |\<subseteq>| scc \<Longrightarrow> tc' |\<subseteq>| scc"
proof (induction states arbitrary: tc)
  case Nil
  then show ?case by simp
next
  case (Cons state states)
  from Cons.prems(1) obtain row where row: "getRowChecked m state = Inr row"
    and rl: "reconsiderLoop m scc states
               (tc |\<union>| fset_of_list (filter (\<lambda>s. s |\<in>| scc) (map fst row))) = Inr tc'"
    by (auto split: sum.splits)
  have "tc |\<union>| fset_of_list (filter (\<lambda>s. s |\<in>| scc) (map fst row)) |\<subseteq>| scc"
    using Cons.prems(2) by (auto simp: fset_of_list.rep_eq)
  with Cons.IH[OF rl] show ?case .
qed

lemma reconsider_subset: "reconsider m scc r = Inr tc \<Longrightarrow> tc |\<subseteq>| scc"
  unfolding reconsider_def by (erule reconsiderLoop_subset) simp

lemma sorted_list_of_fset_empty: "sorted_list_of_fset {||} = []"
proof -
  have "set (sorted_list_of_fset ({||} :: 'a fset)) = {}" by simp
  then show ?thesis by (simp only: set_empty)
qed

lemma reconsider_empty: "reconsider m scc {||} = Inr {||}"
  by (simp add: reconsider_def sorted_list_of_fset_empty)

lemma statesToRemoveOf_subset: "statesToRemoveOf m scc tc |\<subseteq>| tc"
  by (auto simp: statesToRemoveOf_def)

termination pruneLoop
proof (relation "measure (\<lambda>(m, scc, tc, ch). 2 * fcard (scc |\<union>| tc) + (if tc = {||} then 0 else 1))",
       goal_cases)
  case 1 show ?case by simp
next
  case (2 m scc tc ch r ch1 scc1 tc1)
  show ?case
  proof (cases "r = {||}")
    case True
    then have "tc1 = {||}" "scc1 = scc"
      using 2 by (simp_all add: reconsider_empty)
    moreover have "fcard scc \<le> fcard (scc |\<union>| tc)" by (rule fcard_mono) simp
    ultimately show ?thesis using 2(1) by simp
  next
    case False
    then obtain x where x: "x |\<in>| r" by auto
    have rs: "r |\<subseteq>| tc" unfolding 2(2) by (rule statesToRemoveOf_subset)
    have "scc1 |\<union>| tc1 = scc1"
      using reconsider_subset[OF 2(5)] by auto
    moreover have "scc1 |\<subseteq>| (scc |\<union>| tc) |-| {|x|}"
      using x unfolding 2(4) by auto
    then have "fcard scc1 \<le> fcard ((scc |\<union>| tc) |-| {|x|})" by (rule fcard_mono)
    moreover have "fcard ((scc |\<union>| tc) |-| {|x|}) < fcard (scc |\<union>| tc)"
      using x rs by (intro fcard_fminus1_less) auto
    ultimately show ?thesis using 2(1) by simp
  qed
qed

declare pruneLoop.simps [simp del]

lemma pruneLoop_result:
  "pruneLoop m (scc, tc, ch) = Inr (scc', tc', ch') \<Longrightarrow>
     scc' |\<subseteq>| scc \<and> tc' = {||} \<and> (ch \<longrightarrow> ch')
     \<and> (tc |\<subseteq>| scc \<longrightarrow> ch' \<longrightarrow> ch \<or> scc' \<noteq> scc)"
proof (induction m "(scc, tc, ch)" arbitrary: scc tc ch rule: pruneLoop.induct)
  case (1 m scc tc ch)
  show ?case
  proof (cases "tc = {||}")
    case True
    with "1.prems" show ?thesis by (simp add: pruneLoop.simps)
  next
    case False
    define r where "r = statesToRemoveOf m scc tc"
    define ch1 where "ch1 = (ch \<or> r \<noteq> {||})"
    define scc1 where "scc1 = scc |-| r"
    from "1.prems" False obtain tc1 where rc: "reconsider m scc1 r = Inr tc1"
      and eq: "pruneLoop m (scc1, tc1, ch1) = Inr (scc', tc', ch')"
      by (auto simp: pruneLoop.simps[of m scc tc ch] Let_def r_def ch1_def scc1_def
          split: sum.splits)
    from "1.hyps"[OF False r_def ch1_def scc1_def rc eq]
    have ih: "scc' |\<subseteq>| scc1" "tc' = {||}" "ch1 \<longrightarrow> ch'"
      "tc1 |\<subseteq>| scc1 \<longrightarrow> ch' \<longrightarrow> ch1 \<or> scc' \<noteq> scc1" by auto
    have rs: "r |\<subseteq>| tc" unfolding r_def by (rule statesToRemoveOf_subset)
    have a: "scc' |\<subseteq>| scc" using ih(1) by (auto simp: scc1_def)
    have b: "ch \<longrightarrow> ch'" using ih(3) by (simp add: ch1_def)
    have c: "ch' \<longrightarrow> ch \<or> scc' \<noteq> scc" if ts: "tc |\<subseteq>| scc"
    proof
      assume "ch'"
      with ih(4) reconsider_subset[OF rc] have "ch1 \<or> scc' \<noteq> scc1" by simp
      then show "ch \<or> scc' \<noteq> scc"
      proof
        assume ch1
        then have "ch \<or> r \<noteq> {||}" by (simp add: ch1_def)
        then show ?thesis
        proof
          assume "r \<noteq> {||}"
          then obtain x where "x |\<in>| r" by auto
          with rs ts have "x |\<in>| scc" "x |\<notin>| scc1" by (auto simp: scc1_def)
          with ih(1) show ?thesis by auto
        qed simp
      next
        assume ne: "scc' \<noteq> scc1"
        show ?thesis
        proof (cases "scc1 = scc")
          case True with ne show ?thesis by simp
        next
          case False
          then obtain x where "x |\<in>| scc" "x |\<notin>| scc1" by (auto simp: scc1_def)
          with ih(1) show ?thesis by auto
        qed
      qed
    qed
    from a b c ih(2) show ?thesis by simp
  qed
qed

text \<open>
  The loop over the SCCs of the candidate (lines 74-118). \<open>statesToCheck\<close> and
  \<open>mecChanged\<close> live outside the loop and are threaded through it.
\<close>

fun pruneSccs ::
  "'v model \<Rightarrow> StateBlock list \<Rightarrow> BitVector \<Rightarrow> bool
     \<Rightarrow> error + StateBlock list \<times> BitVector \<times> bool" where
  "pruneSccs m [] statesToCheck mecChanged = Inr ([], statesToCheck, mecChanged)"
| "pruneSccs m (scc # sccs) statesToCheck mecChanged =
     (case pruneLoop m (scc, statesToCheck |\<union>| scc, mecChanged) of
        Inl e \<Rightarrow> Inl e
      | Inr (scc1, statesToCheck1, mecChanged1) \<Rightarrow>
          (case pruneSccs m sccs statesToCheck1 mecChanged1 of
             Inl e \<Rightarrow> Inl e
           | Inr (sccs1, statesToCheck2, mecChanged2) \<Rightarrow>
               Inr (scc1 # sccs1, statesToCheck2, mecChanged2)))"

lemma pruneSccs_result:
  "pruneSccs m sccs tc ch = Inr (sccs', tc', ch') \<Longrightarrow>
     list_all2 (|\<subseteq>|) sccs' sccs \<and> (sccs \<noteq> [] \<longrightarrow> tc' = {||}) \<and> (tc = {||} \<longrightarrow> tc' = {||})
     \<and> (ch \<longrightarrow> ch') \<and> (tc = {||} \<longrightarrow> ch' \<longrightarrow> ch \<or> sccs' \<noteq> sccs)"
proof (induction sccs arbitrary: tc ch sccs' tc' ch')
  case Nil
  then show ?case by simp
next
  case (Cons scc sccs)
  from Cons.prems obtain scc1 tc1 ch1 sccs1 tc2 ch2
    where pl: "pruneLoop m (scc, tc |\<union>| scc, ch) = Inr (scc1, tc1, ch1)"
      and ps: "pruneSccs m sccs tc1 ch1 = Inr (sccs1, tc2, ch2)"
      and r: "sccs' = scc1 # sccs1" "tc' = tc2" "ch' = ch2"
    by (auto split: sum.splits prod.splits)
  from pruneLoop_result[OF pl]
  have p: "scc1 |\<subseteq>| scc" "tc1 = {||}" "ch \<longrightarrow> ch1"
    "tc |\<union>| scc |\<subseteq>| scc \<longrightarrow> ch1 \<longrightarrow> ch \<or> scc1 \<noteq> scc" by auto
  from Cons.IH[OF ps]
  have ih: "list_all2 (|\<subseteq>|) sccs1 sccs" "tc1 = {||} \<longrightarrow> tc2 = {||}" "ch1 \<longrightarrow> ch2"
    "tc1 = {||} \<longrightarrow> ch2 \<longrightarrow> ch1 \<or> sccs1 \<noteq> sccs" by auto
  show ?case unfolding r using p ih by auto
qed

text \<open>
  One pass of the loop over the candidates (lines 64-118). Line 70 hands the candidate to
  the constructor of the SCC decomposition with \<open>dropNaiveSccs = true\<close>; the default of
  \<open>onlyBottomSccs\<close> is declared in a header that is not at hand and is \<open>false\<close> in
  the spec.
\<close>

definition sccsOfCandidate :: "'v model \<Rightarrow> StateBlock \<Rightarrow> StateBlock list" where
  "sccsOfCandidate m mec = performSccDecomposition m mec True False"

definition refinementPass ::
  "'v model \<Rightarrow> StateBlock \<Rightarrow> BitVector \<Rightarrow> error + StateBlock list \<times> BitVector \<times> bool" where
  "refinementPass m mec statesToCheck =
     (let sccs = sccsOfCandidate m mec;
          mecChanged = (length sccs > 1)
      in pruneSccs m sccs statesToCheck mecChanged)"

definition weight :: "StateBlock \<Rightarrow> nat" where
  "weight K = (if K = {||} then 1 else 3 * fcard K - 1)"

lemma weight_mono: "A |\<subseteq>| B \<Longrightarrow> A \<noteq> {||} \<Longrightarrow> weight A \<le> weight B"
  using fcard_mono[of A B] by (auto simp: weight_def)

lemma weight_strict: "A |\<subset>| B \<Longrightarrow> A \<noteq> {||} \<Longrightarrow> weight A < weight B"
proof -
  assume a: "A |\<subset>| B" "A \<noteq> {||}"
  then have "fcard A < fcard B" by (simp add: pfsubset_fcard_mono)
  moreover have "0 < fcard A" using a(2) by (metis fcard_0_eq gr0I)
  ultimately show ?thesis using a by (auto simp: weight_def)
qed

lemma weight_sum:
  assumes "disjointBlocks Bs" "\<forall>B \<in> set Bs. B \<noteq> {||} \<and> B |\<subseteq>| K"
  shows "sum_list (map weight Bs) + length Bs \<le> 3 * fcard K"
proof -
  have "sum_list (map weight Bs) + length Bs = 3 * sum_list (map fcard Bs)"
    using assms(2)
  proof (induction Bs)
    case Nil then show ?case by simp
  next
    case (Cons B Bs)
    then have "0 < fcard B" by (metis fcard_0_eq gr0I list.set_intros(1))
    then have "weight B + 1 = 3 * fcard B" using Cons.prems by (auto simp: weight_def)
    with Cons show ?case by simp
  qed
  moreover have "sum_list (map fcard Bs) \<le> fcard K"
    using disjointBlocks_fcard[OF assms(1)] assms(2) by simp
  ultimately show ?thesis by simp
qed

lemma weight_filter:
  "list_all2 (|\<subseteq>|) Bs' Bs \<Longrightarrow>
   sum_list (map weight (filter (\<lambda>scc. scc \<noteq> {||}) Bs')) \<le> sum_list (map weight Bs)"
  by (induction rule: list_all2_induct) (auto simp: weight_mono add_mono)

lemma refinementPass_decreases:
  assumes rp: "refinementPass m mec {||} = Inr (sccs', tc', True)"
  shows "sum_list (map weight (filter (\<lambda>scc. scc \<noteq> {||}) sccs')) < weight mec"
proof -
  define sccs where "sccs = performSccDecomposition m mec True False"
  have ps: "pruneSccs m sccs {||} (length sccs > 1) = Inr (sccs', tc', True)"
    using rp by (simp add: refinementPass_def sccsOfCandidate_def sccs_def Let_def)
  have bl: "\<forall>B \<in> set sccs. B \<noteq> {||} \<and> B |\<subseteq>| mec"
    unfolding sccs_def using performSccDecomposition_block by blast
  have dj: "disjointBlocks sccs"
    unfolding sccs_def by (rule performSccDecomposition_disjoint)
  from pruneSccs_result[OF ps]
  have la: "list_all2 (|\<subseteq>|) sccs' sccs" and ch: "length sccs > 1 \<or> sccs' \<noteq> sccs" by auto
  have ne: "sccs \<noteq> []" using ch la by auto
  then obtain B where "B \<in> set sccs" by (cases sccs) auto
  with bl have mne: "mec \<noteq> {||}" by auto
  then have fm: "0 < fcard mec" by (metis fcard_0_eq gr0I)
  have wm: "weight mec = 3 * fcard mec - 1" using mne by (simp add: weight_def)
  show ?thesis
  proof (cases "length sccs > 1")
    case True
    from weight_sum[OF dj bl] True have "sum_list (map weight sccs) + 2 \<le> 3 * fcard mec"
      by simp
    with weight_filter[OF la] wm fm show ?thesis by simp
  next
    case False
    with ne obtain S where s: "sccs = [S]" by (cases sccs) auto
    with la obtain S' where s': "sccs' = [S']" "S' |\<subseteq>| S" by (cases sccs') auto
    from ch False s s' have "S' \<noteq> S" by simp
    with s'(2) have "S' |\<subset>| S" by auto
    moreover have "S |\<subseteq>| mec" using bl s by simp
    ultimately have "S' |\<subset>| mec" by auto
    then have "S' \<noteq> {||} \<Longrightarrow> weight S' < weight mec" by (rule weight_strict)
    moreover have "0 < weight mec" using wm fm by simp
    ultimately show ?thesis unfolding s' by auto
  qed
qed

lemma refinementPass_statesToCheck:
  assumes "refinementPass m mec tc = Inr (sccs', tc', ch)"
  shows "ch \<longrightarrow> tc' = {||}" "tc = {||} \<longrightarrow> tc' = {||}"
proof -
  define sccs where "sccs = performSccDecomposition m mec True False"
  have ps: "pruneSccs m sccs tc (length sccs > 1) = Inr (sccs', tc', ch)"
    using assms by (simp add: refinementPass_def sccsOfCandidate_def sccs_def Let_def)
  from pruneSccs_result[OF ps]
  have r: "sccs \<noteq> [] \<longrightarrow> tc' = {||}" "tc = {||} \<longrightarrow> tc' = {||}"
    "list_all2 (|\<subseteq>|) sccs' sccs" by auto
  show "tc = {||} \<longrightarrow> tc' = {||}" by (rule r(2))
  show "ch \<longrightarrow> tc' = {||}"
  proof
    assume ch
    show "tc' = {||}"
    proof (cases "sccs = []")
      case True
      with ps \<open>ch\<close> show ?thesis by simp
    next
      case False with r(1) show ?thesis by simp
    qed
  qed
qed

text \<open>
  The loop over the list of candidates (lines 63-136). The list is kept in two parts:
  the candidates before the iterator, which stay as they are, and those from the
  iterator on. \<open>mecPass\<close> is the body of the loop: a changed candidate is erased and its
  nonempty SCCs are pushed to the back; otherwise the iterator moves on.
\<close>

type_synonym mecState = "StateBlock list \<times> StateBlock list \<times> BitVector"

fun mecPass :: "'v model \<Rightarrow> mecState \<Rightarrow> error + mecState" where
  "mecPass m (kept, [], statesToCheck) = Inr (kept, [], statesToCheck)"
| "mecPass m (kept, mec # rest, statesToCheck) =
     (case refinementPass m mec statesToCheck of
        Inl e \<Rightarrow> Inl e
      | Inr (sccs, statesToCheck1, mecChanged) \<Rightarrow>
          if mecChanged
          then Inr (kept, rest @ filter (\<lambda>scc. scc \<noteq> {||}) sccs, statesToCheck1)
          else Inr (kept @ [mec], rest, statesToCheck1))"

definition pending :: "mecState \<Rightarrow> StateBlock list" where
  "pending st = fst (snd st)"

definition passMeasure :: "mecState \<Rightarrow> nat" where
  "passMeasure st = sum_list (map weight (pending st))"

lemma mecPass_decreases:
  assumes "pending st \<noteq> []" and mp: "mecPass m st = Inr st1"
  shows "(snd (snd st) = {||} \<longrightarrow>
            snd (snd st1) = {||} \<and> passMeasure st1 < passMeasure st)
         \<and> (snd (snd st) \<noteq> {||} \<longrightarrow>
            snd (snd st1) = {||} \<or> passMeasure st1 < passMeasure st)"
proof -
  obtain kept cands tc where st: "st = (kept, cands, tc)" by (cases st) auto
  with assms obtain mec rest where c: "cands = mec # rest"
    by (cases cands) (auto simp: pending_def)
  from mp obtain sccs tc1 ch where rp: "refinementPass m mec tc = Inr (sccs, tc1, ch)"
    unfolding st c by (auto split: sum.splits)
  have st1: "st1 = (if ch then (kept, rest @ filter (\<lambda>scc. scc \<noteq> {||}) sccs, tc1)
                    else (kept @ [mec], rest, tc1))"
    using mp rp unfolding st c by (simp split: if_splits)
  have wpos: "0 < weight mec"
  proof (cases "mec = {||}")
    case True then show ?thesis by (simp add: weight_def)
  next
    case False
    then have "0 < fcard mec" by (metis fcard_0_eq gr0I)
    with False show ?thesis by (simp add: weight_def)
  qed
  show ?thesis
  proof (cases ch)
    case True
    from refinementPass_statesToCheck(1)[OF rp] True have t1: "tc1 = {||}" by simp
    have "tc = {||} \<Longrightarrow>
        sum_list (map weight (filter (\<lambda>scc. scc \<noteq> {||}) sccs)) < weight mec"
      using refinementPass_decreases[of m mec sccs tc1] rp True by simp
    then show ?thesis using True t1 by (auto simp: st c st1 pending_def passMeasure_def)
  next
    case False
    from refinementPass_statesToCheck(2)[OF rp] have "tc = {||} \<longrightarrow> tc1 = {||}" .
    then show ?thesis using False wpos by (auto simp: st c st1 pending_def passMeasure_def)
  qed
qed

function mecLoop :: "'v model \<Rightarrow> mecState \<Rightarrow> error + StateBlock list" where
  "mecLoop m st =
     (if pending st = [] then Inr (fst st)
      else case mecPass m st of
             Inl e \<Rightarrow> Inl e
           | Inr st1 \<Rightarrow> mecLoop m st1)"
  by pat_completeness auto
termination
proof (relation "measures [\<lambda>(m, st). if snd (snd st) = {||} then 0 else 1,
                          \<lambda>(m, st). passMeasure st]", goal_cases)
  case 1 show ?case by simp
next
  case (2 m st st1)
  from mecPass_decreases[OF 2] show ?case by auto
qed

declare mecLoop.simps [simp del]

text \<open>Lines 144-157: the choices of a state whose rows stay inside the block.\<close>

definition containedChoices :: "'v model \<Rightarrow> StateBlock \<Rightarrow> nat \<Rightarrow> nat list" where
  "containedChoices m mecStateSet state =
     filter (choiceContainedInMEC m mecStateSet) (choicesOf m state)"

text \<open>Lines 141-160: the MEC of a block, one \<open>addState\<close> per state in ascending order.\<close>

definition newMec :: "'v model \<Rightarrow> StateBlock \<Rightarrow> MaximalEndComponent" where
  "newMec m mecStateSet =
     map (\<lambda>state. (state, containedChoices m mecStateSet state))
         (sorted_list_of_fset mecStateSet)"

text \<open>
  \<open>performMaximalEndComponentDecomposition\<close> (lines 47-166): the list of candidates starts
  with the subsystem, and \<open>statesToCheck\<close> with no bit set; the result is \<open>this->blocks\<close>.
\<close>

definition performMaximalEndComponentDecomposition ::
  "'v model \<Rightarrow> BitVector \<Rightarrow> error + MaximalEndComponent list" where
  "performMaximalEndComponentDecomposition m subsystem =
     (case mecLoop m ([], [subsystem], {||}) of
        Inl e \<Rightarrow> Inl e
      | Inr endComponentStateSets \<Rightarrow> Inr (map (newMec m) endComponentStateSets))"

subsection \<open>The passes of the loop\<close>

lemma disjointBlocks_nth:
  "disjointBlocks Bs \<Longrightarrow> i < length Bs \<Longrightarrow> j < length Bs \<Longrightarrow> i \<noteq> j \<Longrightarrow>
   Bs ! i |\<inter>| Bs ! j = {||}"
proof (induction Bs arbitrary: i j)
  case Nil then show ?case by simp
next
  case (Cons B Bs)
  show ?case
  proof (cases i)
    case 0
    with Cons.prems obtain j' where "j = Suc j'" "j' < length Bs" by (cases j) auto
    with Cons.prems(1) 0 show ?thesis by simp
  next
    case (Suc i')
    show ?thesis
    proof (cases j)
      case 0
      with Cons.prems(1,2) Suc have "B |\<inter>| Bs ! i' = {||}" by simp
      with 0 Suc show ?thesis by (simp add: inf_commute)
    next
      case (Suc j')
      with Cons \<open>i = Suc i'\<close> show ?thesis by simp
    qed
  qed
qed

text \<open>A pass that sets \<open>mecChanged\<close> leaves proper subsets of the candidate.\<close>

lemma refinementPass_smaller:
  assumes rp: "refinementPass m mec {||} = Inr (sccs', tc', True)"
    and S: "S \<in> set sccs'"
  shows "S |\<subset>| mec"
proof -
  define sccs where "sccs = performSccDecomposition m mec True False"
  have ps: "pruneSccs m sccs {||} (length sccs > 1) = Inr (sccs', tc', True)"
    using rp by (simp add: refinementPass_def sccsOfCandidate_def sccs_def Let_def)
  have bl: "\<And>B. B \<in> set sccs \<Longrightarrow> B \<noteq> {||} \<and> B |\<subseteq>| mec"
    unfolding sccs_def using performSccDecomposition_block by blast
  have dj: "disjointBlocks sccs"
    unfolding sccs_def by (rule performSccDecomposition_disjoint)
  from pruneSccs_result[OF ps]
  have la: "list_all2 (|\<subseteq>|) sccs' sccs" and ch: "length sccs > 1 \<or> sccs' \<noteq> sccs" by auto
  from S obtain i where i: "i < length sccs'" "S = sccs' ! i" by (auto simp: in_set_conv_nth)
  from la have len: "length sccs' = length sccs" by (rule list_all2_lengthD)
  from la i have sub: "S |\<subseteq>| sccs ! i" by (simp add: list_all2_nthD)
  have bi: "sccs ! i \<noteq> {||}" "sccs ! i |\<subseteq>| mec" using bl[of "sccs ! i"] i(1) len by auto
  show ?thesis
  proof (cases "length sccs > 1")
    case True
    then obtain j where j: "j < length sccs" "j \<noteq> i"
      by (cases "i = 0") (auto intro: that[of 0] that[of 1])
    from bl[of "sccs ! j"] j(1) obtain x where x: "x |\<in>| sccs ! j" "x |\<in>| mec" by auto
    from disjointBlocks_nth[OF dj _ j(1), of i] i(1) len j(2) x(1)
    have "x |\<notin>| sccs ! i" by auto
    with sub have "x |\<notin>| S" by auto
    with x(2) sub bi(2) show ?thesis by auto
  next
    case False
    with i(1) len obtain B where s: "sccs = [B]" by (cases sccs) auto
    with la obtain B' where s': "sccs' = [B']" by (cases sccs') auto
    from ch False s s' have "B' \<noteq> B" by simp
    moreover have "S = B'" using S s' by simp
    moreover have "B' |\<subseteq>| B" using la s s' by simp
    moreover have "B |\<subseteq>| mec" using bl s by simp
    ultimately show ?thesis by auto
  qed
qed

text \<open>
  The read of line 111 is in range when every state of the block numbers a row of the
  matrix, as it does when every state has a choice. Then no pass fails.
\<close>

definition statesHaveRows :: "'v model \<Rightarrow> nat fset \<Rightarrow> bool" where
  "statesHaveRows m X = (\<forall>s. s |\<in>| X \<longrightarrow> s < length (transitionMatrix m))"

lemma statesHaveRows_mono: "A |\<subseteq>| B \<Longrightarrow> statesHaveRows m B \<Longrightarrow> statesHaveRows m A"
  by (auto simp: statesHaveRows_def)

lemma reconsiderLoop_in_range:
  "\<forall>s \<in> set states. s < length (transitionMatrix m) \<Longrightarrow>
   \<exists>tc'. reconsiderLoop m scc states tc = Inr tc'"
  by (induction states arbitrary: tc) (simp_all add: getRowChecked_def)

lemma reconsider_in_range:
  "statesHaveRows m r \<Longrightarrow> \<exists>tc. reconsider m scc r = Inr tc"
  unfolding reconsider_def by (rule reconsiderLoop_in_range) (simp add: statesHaveRows_def)

lemma pruneLoop_in_range:
  "statesHaveRows m scc \<Longrightarrow> statesHaveRows m tc \<Longrightarrow> \<exists>res. pruneLoop m (scc, tc, ch) = Inr res"
proof (induction m "(scc, tc, ch)" arbitrary: scc tc ch rule: pruneLoop.induct)
  case (1 m scc tc ch)
  show ?case
  proof (cases "tc = {||}")
    case True
    then show ?thesis by (simp add: pruneLoop.simps)
  next
    case False
    define r where "r = statesToRemoveOf m scc tc"
    define ch1 where "ch1 = (ch \<or> r \<noteq> {||})"
    define scc1 where "scc1 = scc |-| r"
    have "statesHaveRows m r"
      unfolding r_def using statesToRemoveOf_subset "1.prems"(2) by (rule statesHaveRows_mono)
    from reconsider_in_range[OF this] obtain tc1 where rc: "reconsider m scc1 r = Inr tc1"
      by blast
    have s1: "statesHaveRows m scc1"
      using "1.prems"(1) by (auto simp: scc1_def statesHaveRows_def)
    have t1: "statesHaveRows m tc1"
      using reconsider_subset[OF rc] s1 by (rule statesHaveRows_mono)
    from "1.hyps"[OF False r_def ch1_def scc1_def rc s1 t1]
    obtain res where "pruneLoop m (scc1, tc1, ch1) = Inr res" by blast
    then have "pruneLoop m (scc, tc, ch) = Inr res"
      using False rc
      by (simp add: pruneLoop.simps[of m scc tc ch] Let_def r_def ch1_def scc1_def)
    then show ?thesis ..
  qed
qed

lemma pruneSccs_in_range:
  "\<forall>scc \<in> set sccs. statesHaveRows m scc \<Longrightarrow> statesHaveRows m tc \<Longrightarrow>
   \<exists>res. pruneSccs m sccs tc ch = Inr res"
proof (induction sccs arbitrary: tc ch)
  case Nil
  then show ?case by simp
next
  case (Cons scc sccs)
  have "statesHaveRows m (tc |\<union>| scc)"
    using Cons.prems by (auto simp: statesHaveRows_def)
  with Cons.prems(1) obtain scc1 tc1 ch1
    where pl: "pruneLoop m (scc, tc |\<union>| scc, ch) = Inr (scc1, tc1, ch1)"
    using pruneLoop_in_range[of m scc "tc |\<union>| scc" ch] by auto
  from pruneLoop_result[OF pl] have "tc1 = {||}" by simp
  then have "statesHaveRows m tc1" by (simp add: statesHaveRows_def)
  with Cons.IH[of tc1 ch1] Cons.prems(1)
  obtain res where "pruneSccs m sccs tc1 ch1 = Inr res" by auto
  with pl show ?case by (cases res) simp
qed

lemma refinementPass_in_range:
  assumes "statesHaveRows m mec"
  shows "\<exists>sccs tc ch. refinementPass m mec {||} = Inr (sccs, tc, ch)
           \<and> (\<forall>scc \<in> set sccs. scc |\<subseteq>| mec)"
proof -
  define sccs where "sccs = performSccDecomposition m mec True False"
  have bl: "\<forall>B \<in> set sccs. B |\<subseteq>| mec"
    unfolding sccs_def using performSccDecomposition_block by blast
  then have "\<forall>B \<in> set sccs. statesHaveRows m B"
    using assms statesHaveRows_mono by blast
  from pruneSccs_in_range[OF this, of "{||}" "length sccs > 1"]
  obtain sccs' tc ch where ps: "pruneSccs m sccs {||} (length sccs > 1) = Inr (sccs', tc, ch)"
    by (auto simp: statesHaveRows_def)
  from pruneSccs_result[OF ps] have la: "list_all2 (|\<subseteq>|) sccs' sccs" by simp
  have "\<forall>scc \<in> set sccs'. scc |\<subseteq>| mec"
  proof
    fix scc assume "scc \<in> set sccs'"
    then obtain i where i: "i < length sccs'" "scc = sccs' ! i" by (auto simp: in_set_conv_nth)
    from la have "length sccs' = length sccs" by (rule list_all2_lengthD)
    with la i bl have "scc |\<subseteq>| sccs ! i" "sccs ! i |\<subseteq>| mec" by (simp_all add: list_all2_nthD)
    then show "scc |\<subseteq>| mec" by simp
  qed
  with ps show ?thesis
    by (simp add: refinementPass_def sccsOfCandidate_def sccs_def Let_def)
qed

text \<open>\<open>mecPasses m n\<close> is \<open>n\<close> passes of the loop, one after the other.\<close>

fun mecPasses :: "'v model \<Rightarrow> nat \<Rightarrow> mecState \<Rightarrow> error + mecState" where
  "mecPasses m 0 st = Inr st"
| "mecPasses m (Suc n) st =
     (case mecPass m st of
        Inl e \<Rightarrow> Inl e
      | Inr st1 \<Rightarrow> mecPasses m n st1)"

lemma mecPass_in_range:
  assumes "\<forall>mec \<in> set (pending st). statesHaveRows m mec" and "snd (snd st) = {||}"
  shows "\<exists>st1. mecPass m st = Inr st1
           \<and> (\<forall>mec \<in> set (pending st1). statesHaveRows m mec)"
proof -
  obtain kept cands tc where st: "st = (kept, cands, tc)" by (cases st) auto
  show ?thesis
  proof (cases cands)
    case Nil
    then show ?thesis using st by (simp add: pending_def)
  next
    case (Cons mec rest)
    have mr: "statesHaveRows m mec" and rr: "\<forall>B \<in> set rest. statesHaveRows m B"
      using assms(1) by (simp_all add: st Cons pending_def)
    from refinementPass_in_range[OF mr] obtain sccs tc1 ch
      where rp: "refinementPass m mec {||} = Inr (sccs, tc1, ch)"
        and sub: "\<forall>scc \<in> set sccs. scc |\<subseteq>| mec" by blast
    have "\<forall>scc \<in> set sccs. statesHaveRows m scc"
      using sub mr statesHaveRows_mono by blast
    with rr rp show ?thesis using assms(2) by (auto simp: st Cons pending_def)
  qed
qed

lemma mecLoop_passes:
  assumes "snd (snd st) = {||}" and "\<forall>mec \<in> set (pending st). statesHaveRows m mec"
  shows "\<exists>n \<le> passMeasure st. \<exists>st'. mecPasses m n st = Inr st' \<and> pending st' = []
           \<and> mecLoop m st = Inr (fst st')"
  using assms
proof (induction "passMeasure st" arbitrary: st rule: less_induct)
  case less
  show ?case
  proof (cases "pending st = []")
    case True
    then have "mecLoop m st = Inr (fst st)" by (subst mecLoop.simps) simp
    with True show ?thesis by (intro exI[of _ 0]) simp
  next
    case False
    from mecPass_in_range[OF less.prems(2,1)] obtain st1
      where mp: "mecPass m st = Inr st1"
        and r1: "\<forall>mec \<in> set (pending st1). statesHaveRows m mec" by blast
    from mecPass_decreases[OF False mp] less.prems(1)
    have d: "snd (snd st1) = {||}" "passMeasure st1 < passMeasure st"
      by simp_all
    from less.hyps[OF d(2) d(1) r1] obtain n st' where n: "n \<le> passMeasure st1"
      "mecPasses m n st1 = Inr st'" "pending st' = []"
      "mecLoop m st1 = Inr (fst st')" by auto
    have "mecLoop m st = mecLoop m st1" using False mp by (subst mecLoop.simps) simp
    with n d(2) mp show ?thesis
      by (intro exI[of _ "Suc n"]) simp
  qed
qed

text \<open>
  When every state of the subsystem numbers a row of the matrix, the loop over the
  candidates ends without an error after at most \<open>3 |subsystem| + 1\<close> passes.
\<close>

lemma mecLoop_ends:
  assumes "statesHaveRows m subsystem"
  shows "\<exists>n \<le> 3 * fcard subsystem + 1. \<exists>st.
           mecPasses m n ([], [subsystem], {||}) = Inr st \<and> pending st = []
           \<and> mecLoop m ([], [subsystem], {||}) = Inr (fst st)"
proof -
  have "passMeasure ([], [subsystem], {||}) \<le> 3 * fcard subsystem + 1"
    by (auto simp: passMeasure_def pending_def weight_def)
  moreover from mecLoop_passes[of "([], [subsystem], {||})" m] assms
  obtain n st where "n \<le> passMeasure ([], [subsystem], {||})"
    "mecPasses m n ([], [subsystem], {||}) = Inr st" "pending st = []"
    "mecLoop m ([], [subsystem], {||}) = Inr (fst st)"
    by (auto simp: pending_def)
  ultimately show ?thesis by (intro exI[of _ n] conjI exI[of _ st]) simp_all
qed

section \<open>Correctness of the SCC engine\<close>

text \<open>
  The graph the engine works on: \<open>s\<close> has an edge to every state that occurs as the
  column of an entry in the rows of \<open>s\<close>; the decomposition is restricted to the
  subsystem. The strongly connected component of a state is the set of the states it
  reaches and is reached from. With \<open>dropNaiveSccs\<close> a component is kept when it has
  more than one state or its state has an entry for itself.
\<close>

definition successors :: "'v model \<Rightarrow> nat \<Rightarrow> nat set" where
  "successors m s = fst ` set (getRows m s)"

definition edges :: "'v model \<Rightarrow> BitVector \<Rightarrow> (nat \<times> nat) set" where
  "edges m subsystem =
     {(s, t). s |\<in>| subsystem \<and> t |\<in>| subsystem \<and> t \<in> successors m s}"

definition sccOf :: "'v model \<Rightarrow> BitVector \<Rightarrow> nat \<Rightarrow> nat set" where
  "sccOf m subsystem s =
     {t. (s, t) \<in> (edges m subsystem)\<^sup>* \<and> (t, s) \<in> (edges m subsystem)\<^sup>*}"

definition keptScc :: "'v model \<Rightarrow> bool \<Rightarrow> nat set \<Rightarrow> bool" where
  "keptScc m dropNaiveSccs S \<longleftrightarrow>
     \<not> dropNaiveSccs \<or> card S > 1 \<or> (\<exists>s. S = {s} \<and> s \<in> successors m s)"

text \<open>The state under the iterator position \<open>j\<close> in the rows of \<open>s\<close>.\<close>

definition target :: "'v model \<Rightarrow> nat \<Rightarrow> nat \<Rightarrow> nat" where
  "target m s j = fst (getRows m s ! j)"

text \<open>
  One round of the \<open>for\<close> loop on an entry that starts no descent (its column is
  outside the subsystem or visited): \<open>successorLoop\<close> is the iteration of it.
\<close>

definition scanEntry :: "BitVector \<Rightarrow> bool \<Rightarrow> nat \<Rightarrow> nat \<Rightarrow> env \<Rightarrow> env" where
  "scanEntry sub dn cur t e =
     (let e1 = (if dn \<and> cur = t
                then e\<lparr> statesWithSelfloop := finsert cur (statesWithSelfloop e) \<rparr> else e)
      in if t |\<in>| sub \<and> t |\<in>| tarjanStackStates e1
         then e1\<lparr> lowlinks := (lowlinks e1)(cur := min (lowlinks e1 cur) (stateIndices e1 t)) \<rparr>
         else e1)"

lemma successorLoop_Cons:
  "successorLoop sub dn cur (s # rest) pos e =
     (if fst s |\<in>| sub \<and> fst s |\<notin>| visitedStates e
      then (if dn \<and> cur = fst s
            then e\<lparr> statesWithSelfloop := finsert cur (statesWithSelfloop e) \<rparr> else e, Some pos)
      else successorLoop sub dn cur rest (Suc pos) (scanEntry sub dn cur (fst s) e))"
  by (simp add: scanEntry_def Let_def)

lemma successorLoop_rule:
  assumes "successorLoop sub dn cur (drop it rows) it e = (e', r)"
    and "P it e" and "cur |\<in>| visitedStates e" and "it \<le> length rows"
    and step: "\<And>pos e. P pos e \<Longrightarrow> pos < length rows \<Longrightarrow> cur |\<in>| visitedStates e \<Longrightarrow>
            \<not> (fst (rows ! pos) |\<in>| sub \<and> fst (rows ! pos) |\<notin>| visitedStates e) \<Longrightarrow>
            P (Suc pos) (scanEntry sub dn cur (fst (rows ! pos)) e)
            \<and> cur |\<in>| visitedStates (scanEntry sub dn cur (fst (rows ! pos)) e)"
  shows "case r of
           Some pos \<Rightarrow> P pos e' \<and> pos < length rows \<and> fst (rows ! pos) |\<in>| sub
                        \<and> fst (rows ! pos) |\<notin>| visitedStates e'
         | None \<Rightarrow> P (length rows) e'"
  using assms(1,2,3,4)
proof (induction "drop it rows" arbitrary: it e)
  case Nil
  then have "it = length rows" by simp
  moreover from Nil(1)[symmetric] Nil(2) have "e' = e" "r = None" by simp_all
  ultimately show ?case using Nil(3) by simp
next
  case (Cons s rest)
  from Cons(2) have lt: "it < length rows"
    by (metis drop_eq_Nil2 list.distinct(1) not_le_imp_less)
  then have s: "s = rows ! it" and rest: "rest = drop (Suc it) rows"
    using Cons(2) by (metis Cons_nth_drop_Suc list.inject)+
  show ?case
  proof (cases "fst s |\<in>| sub \<and> fst s |\<notin>| visitedStates e")
    case True
    then have "cur \<noteq> fst s" using Cons.prems(3) by auto
    with True Cons.prems(1) have "e' = e" "r = Some it"
      unfolding Cons(2)[symmetric] successorLoop_Cons by simp_all
    with True lt s Cons.prems(2) show ?thesis by simp
  next
    case False
    with Cons.prems(1)
    have sl: "successorLoop sub dn cur (drop (Suc it) rows) (Suc it)
                (scanEntry sub dn cur (fst (rows ! it)) e) = (e', r)"
      unfolding Cons(2)[symmetric] successorLoop_Cons rest s by simp
    from step[OF Cons.prems(2) lt Cons.prems(3)] False s
    have p: "P (Suc it) (scanEntry sub dn cur (fst (rows ! it)) e)"
      "cur |\<in>| visitedStates (scanEntry sub dn cur (fst (rows ! it)) e)" by auto
    from lt have "Suc it \<le> length rows" by simp
    from Cons(1)[OF rest sl p this] show ?thesis .
  qed
qed

subsection \<open>The invariant of the traversal\<close>

text \<open>
  The invariant is stated where the \<open>for\<close> loop stands at the iterator position \<open>it\<close> of
  the current state, the top of the recursion stack. The frames below the top pair a
  state with its saved iterator. An entry of a state has been scanned when it lies
  before the position of the state (the top or a frame below it), or, for a state that
  has left the recursion stack, in any case.
\<close>

definition saved :: "env \<Rightarrow> (nat \<times> nat) list" where
  "saved e = zip (tl (recursionStateStack e)) (tl (recursionIteratorStack e))"

definition scanned :: "'v model \<Rightarrow> env \<Rightarrow> nat \<Rightarrow> nat \<Rightarrow> nat set" where
  "scanned m e it v =
     (if v = hd (recursionStateStack e) then {..<it}
      else case map_of (saved e) v of
             Some p \<Rightarrow> {..<p}
           | None \<Rightarrow> {..<length (getRows m v)})"

text \<open>Every saved iterator points at the entry of the state above it.\<close>

fun chain :: "'v model \<Rightarrow> nat \<Rightarrow> (nat \<times> nat) list \<Rightarrow> bool" where
  "chain m c [] = True"
| "chain m c ((p, q) # fs) = (q < length (getRows m p) \<and> target m p q = c \<and> chain m p fs)"

text \<open>
  The state \<open>g\<close> of the recursion stack nearest to \<open>v\<close> from below in the order of
  discovery.
\<close>

definition nearest :: "env \<Rightarrow> nat \<Rightarrow> nat \<Rightarrow> bool" where
  "nearest e g v \<longleftrightarrow>
     g \<in> set (recursionStateStack e) \<and> stateIndices e g \<le> stateIndices e v
     \<and> (\<forall>g' \<in> set (recursionStateStack e).
           stateIndices e g' \<le> stateIndices e v \<longrightarrow> stateIndices e g' \<le> stateIndices e g)"

text \<open>
  The stacks: the Tarjan stack holds visited states of the subsystem, each once, in the
  order of their indices, and its bit vector agrees with it; the recursion stack is a
  subsequence of it with the same bottom.
\<close>

definition invStruct :: "'v model \<Rightarrow> BitVector \<Rightarrow> env \<Rightarrow> nat \<Rightarrow> bool" where
  "invStruct m sub e it \<longleftrightarrow>
     distinct (tarjanStack e) \<and> set (tarjanStack e) \<subseteq> fset (visitedStates e)
     \<and> visitedStates e |\<subseteq>| sub
     \<and> tarjanStackStates e = fset_of_list (tarjanStack e)
     \<and> sorted_wrt (\<lambda>a b. stateIndices e b < stateIndices e a) (tarjanStack e)
     \<and> (\<forall>v \<in> set (tarjanStack e). stateIndices e v < currentIndex e)
     \<and> recursionStateStack e \<noteq> []
     \<and> subseq (recursionStateStack e) (tarjanStack e)
     \<and> last (recursionStateStack e) = last (tarjanStack e)
     \<and> length (recursionIteratorStack e) = length (recursionStateStack e)
     \<and> chain m (hd (recursionStateStack e)) (saved e)
     \<and> it \<le> length (getRows m (hd (recursionStateStack e)))"

text \<open>Every scanned entry inside the subsystem leads to a visited state.\<close>

definition invExplored :: "'v model \<Rightarrow> BitVector \<Rightarrow> env \<Rightarrow> nat \<Rightarrow> bool" where
  "invExplored m sub e it \<longleftrightarrow>
     (\<forall>v j. v |\<in>| visitedStates e \<longrightarrow> j \<in> scanned m e it v \<longrightarrow>
        target m v j |\<in>| sub \<longrightarrow> target m v j |\<in>| visitedStates e)"

text \<open>
  The visited states that have left the Tarjan stack are closed under the edges, and the
  blocks are the components among them that are kept.
\<close>

definition closedStates :: "env \<Rightarrow> nat set" where
  "closedStates e = fset (visitedStates e) - set (tarjanStack e)"

definition invClosed :: "'v model \<Rightarrow> BitVector \<Rightarrow> bool \<Rightarrow> env \<Rightarrow> bool" where
  "invClosed m sub dn e \<longleftrightarrow>
     (\<forall>v t. v \<in> closedStates e \<longrightarrow> t \<in> successors m v \<longrightarrow> t |\<in>| sub \<longrightarrow>
        t \<in> closedStates e)
     \<and> (\<forall>B \<in> set (blocks e). \<exists>s \<in> closedStates e.
           fset B = sccOf m sub s \<and> keptScc m dn (fset B))
     \<and> (\<forall>s \<in> closedStates e. keptScc m dn (sccOf m sub s) \<longrightarrow>
           (\<exists>B \<in> set (blocks e). fset B = sccOf m sub s))"

text \<open>
  The lowlinks: the lowlink of a state on the recursion stack is the index of a state on
  the Tarjan stack that it reaches; a scanned edge between states of the Tarjan stack has
  been recorded in the lowlink of the nearest state of the recursion stack; a state of
  the Tarjan stack reaches the states above it, and some state of the recursion stack
  at or below it.
\<close>

definition invLow :: "'v model \<Rightarrow> BitVector \<Rightarrow> env \<Rightarrow> nat \<Rightarrow> bool" where
  "invLow m sub e it \<longleftrightarrow>
     (\<forall>g \<in> set (recursionStateStack e).
        lowlinks e g \<le> stateIndices e g
        \<and> (\<exists>w \<in> set (tarjanStack e).
              stateIndices e w = lowlinks e g \<and> (g, w) \<in> (edges m sub)\<^sup>*))
     \<and> (\<forall>v \<in> set (tarjanStack e). \<forall>j \<in> scanned m e it v. \<forall>g.
           target m v j \<in> set (tarjanStack e) \<longrightarrow> nearest e g v \<longrightarrow>
           lowlinks e g \<le> stateIndices e (target m v j))
     \<and> (\<forall>v \<in> set (tarjanStack e). \<forall>w \<in> set (tarjanStack e).
           stateIndices e v \<le> stateIndices e w \<longrightarrow> (v, w) \<in> (edges m sub)\<^sup>*)
     \<and> (\<forall>v \<in> set (tarjanStack e). \<exists>g \<in> set (recursionStateStack e).
           stateIndices e g \<le> stateIndices e v \<and> (v, g) \<in> (edges m sub)\<^sup>*)"

text \<open>With \<open>dropNaiveSccs\<close>, the bit vector of the self-loops records the scanned ones.\<close>

definition invSelf :: "'v model \<Rightarrow> bool \<Rightarrow> env \<Rightarrow> nat \<Rightarrow> bool" where
  "invSelf m dn e it \<longleftrightarrow>
     (dn \<longrightarrow>
       (\<forall>v \<in> set (recursionStateStack e). \<forall>j \<in> scanned m e it v.
          target m v j = v \<longrightarrow> v |\<in>| statesWithSelfloop e)
       \<and> (\<forall>s. s |\<in>| statesWithSelfloop e \<longrightarrow> s \<in> successors m s))"

definition tarjanInv :: "'v model \<Rightarrow> BitVector \<Rightarrow> bool \<Rightarrow> nat fset \<Rightarrow> env \<Rightarrow> nat \<Rightarrow> bool" where
  "tarjanInv m sub dn X e it \<longleftrightarrow>
     invStruct m sub e it \<and> invExplored m sub e it \<and> invClosed m sub dn e
     \<and> invLow m sub e it \<and> invSelf m dn e it \<and> X |\<subseteq>| visitedStates e"

subsection \<open>Scanning an entry\<close>

lemma scanEntry_fields:
  "recursionStateStack (scanEntry sub dn cur t e) = recursionStateStack e"
  "recursionIteratorStack (scanEntry sub dn cur t e) = recursionIteratorStack e"
  "tarjanStack (scanEntry sub dn cur t e) = tarjanStack e"
  "tarjanStackStates (scanEntry sub dn cur t e) = tarjanStackStates e"
  "visitedStates (scanEntry sub dn cur t e) = visitedStates e"
  "stateIndices (scanEntry sub dn cur t e) = stateIndices e"
  "currentIndex (scanEntry sub dn cur t e) = currentIndex e"
  "blocks (scanEntry sub dn cur t e) = blocks e"
  "statesWithSelfloop (scanEntry sub dn cur t e) =
     (if dn \<and> cur = t then finsert cur (statesWithSelfloop e) else statesWithSelfloop e)"
  "lowlinks (scanEntry sub dn cur t e) =
     (if t |\<in>| sub \<and> t |\<in>| tarjanStackStates e
      then (lowlinks e)(cur := min (lowlinks e cur) (stateIndices e t)) else lowlinks e)"
  by (auto simp: scanEntry_def Let_def)

lemma saved_scanEntry: "saved (scanEntry sub dn cur t e) = saved e"
  by (simp add: saved_def scanEntry_fields)

lemma closedStates_scanEntry: "closedStates (scanEntry sub dn cur t e) = closedStates e"
  by (simp add: closedStates_def scanEntry_fields)

lemma scanned_scanEntry:
  "scanned m (scanEntry sub dn cur t e) (Suc it) v =
     (if v = hd (recursionStateStack e) then insert it (scanned m e it v) else scanned m e it v)"
  by (auto simp: scanned_def scanEntry_fields saved_scanEntry)

lemma nearest_scanEntry: "nearest (scanEntry sub dn cur t e) g v = nearest e g v"
  by (simp add: nearest_def scanEntry_fields)


lemma sorted_wrt_idx_inj:
  assumes "sorted_wrt (\<lambda>a b. f b < (f a :: nat)) xs" "a \<in> set xs" "b \<in> set xs" "f a = f b"
  shows "a = b"
  using assms
proof (induction xs)
  case Nil then show ?case by simp
next
  case (Cons x xs)
  then show ?case by (auto simp: less_le)
qed

lemma invStruct_facts:
  assumes "invStruct m sub e it"
  shows "hd (recursionStateStack e) \<in> set (recursionStateStack e)"
    and "set (recursionStateStack e) \<subseteq> set (tarjanStack e)"
    and "set (tarjanStack e) \<subseteq> fset (visitedStates e)"
    and "fset (visitedStates e) \<subseteq> fset sub"
    and "\<And>a b. a \<in> set (tarjanStack e) \<Longrightarrow> b \<in> set (tarjanStack e) \<Longrightarrow>
           stateIndices e a = stateIndices e b \<Longrightarrow> a = b"
    and "\<And>t. t |\<in>| tarjanStackStates e \<longleftrightarrow> t \<in> set (tarjanStack e)"
proof -
  from assms have ne: "recursionStateStack e \<noteq> []"
    and sq: "subseq (recursionStateStack e) (tarjanStack e)"
    and so: "sorted_wrt (\<lambda>a b. stateIndices e b < stateIndices e a) (tarjanStack e)"
    and ts: "tarjanStackStates e = fset_of_list (tarjanStack e)"
    and tv: "set (tarjanStack e) \<subseteq> fset (visitedStates e)"
    and vs: "visitedStates e |\<subseteq>| sub"
    by (simp_all add: invStruct_def)
  show "hd (recursionStateStack e) \<in> set (recursionStateStack e)" using ne by simp
  show "set (recursionStateStack e) \<subseteq> set (tarjanStack e)"
    using list_emb_set[OF sq] by auto
  show "set (tarjanStack e) \<subseteq> fset (visitedStates e)" by (rule tv)
  show "fset (visitedStates e) \<subseteq> fset sub" using vs by (simp add: less_eq_fset.rep_eq)
  show "\<And>a b. a \<in> set (tarjanStack e) \<Longrightarrow> b \<in> set (tarjanStack e) \<Longrightarrow>
           stateIndices e a = stateIndices e b \<Longrightarrow> a = b"
    using sorted_wrt_idx_inj[OF so] by blast
  show "\<And>t. t |\<in>| tarjanStackStates e \<longleftrightarrow> t \<in> set (tarjanStack e)"
    by (simp add: ts fset_of_list.rep_eq)
qed

lemma nearest_gray:
  assumes "invStruct m sub e it" "g \<in> set (recursionStateStack e)" "nearest e g' g"
  shows "g' = g"
proof -
  note f = invStruct_facts[OF assms(1)]
  from assms(3) have a: "g' \<in> set (recursionStateStack e)"
    "stateIndices e g' \<le> stateIndices e g"
    "stateIndices e g \<le> stateIndices e g'"
    using assms(2) by (auto simp: nearest_def)
  then show ?thesis using f(2) f(5)[of g' g] assms(2) by auto
qed

lemma target_successors:
  "j < length (getRows m v) \<Longrightarrow> target m v j \<in> successors m v"
  by (simp add: target_def successors_def)

lemma successors_target:
  "t \<in> successors m v \<Longrightarrow> \<exists>j < length (getRows m v). target m v j = t"
  by (fastforce simp: target_def successors_def in_set_conv_nth)

lemma scanEntry_invStruct:
  assumes "invStruct m sub e it" "it < length (getRows m (hd (recursionStateStack e)))"
  shows "invStruct m sub (scanEntry sub dn cur t e) (Suc it)"
  using assms by (simp add: invStruct_def scanEntry_fields saved_scanEntry)

lemma scanEntry_invExplored:
  assumes "invExplored m sub e it" "cur = hd (recursionStateStack e)" "t = target m cur it"
    and "\<not> (t |\<in>| sub \<and> t |\<notin>| visitedStates e)"
  shows "invExplored m sub (scanEntry sub dn cur t e) (Suc it)"
  using assms unfolding invExplored_def scanned_scanEntry scanEntry_fields by auto

lemma scanEntry_invClosed:
  assumes "invClosed m sub dn e"
  shows "invClosed m sub dn (scanEntry sub dn' cur t e)"
  using assms unfolding invClosed_def closedStates_scanEntry scanEntry_fields by simp

lemma scanEntry_invSelf:
  assumes "invSelf m dn e it" "cur = hd (recursionStateStack e)" "t = target m cur it"
    and "it < length (getRows m cur)"
  shows "invSelf m dn (scanEntry sub dn cur t e) (Suc it)"
  using assms target_successors[of it m cur]
  unfolding invSelf_def scanned_scanEntry scanEntry_fields by auto


lemma scanEntry_invLow:
  assumes st: "invStruct m sub e it" and lo: "invLow m sub e it"
    and cur: "cur = hd (recursionStateStack e)" and t: "t = target m cur it"
    and lt: "it < length (getRows m cur)"
  shows "invLow m sub (scanEntry sub dn cur t e) (Suc it)"
proof -
  note f = invStruct_facts[OF st]
  let ?e = "scanEntry sub dn cur t e"
  let ?E = "edges m sub"
  have curR: "cur \<in> set (recursionStateStack e)" using f(1) cur by simp
  then have curT: "cur \<in> set (tarjanStack e)" and curS: "cur |\<in>| sub" using f(2,3,4) by auto
  have low_le: "lowlinks ?e g \<le> lowlinks e g" for g
    by (simp add: scanEntry_fields)
  have low_ne: "g \<noteq> cur \<Longrightarrow> lowlinks ?e g = lowlinks e g" for g
    by (simp add: scanEntry_fields)
  have low_cur: "t \<in> set (tarjanStack e) \<Longrightarrow> lowlinks ?e cur \<le> stateIndices e t"
    using f(3,4,6) by (auto simp: scanEntry_fields)
  from lo have d1: "\<And>g. g \<in> set (recursionStateStack e) \<Longrightarrow> lowlinks e g \<le> stateIndices e g
        \<and> (\<exists>w \<in> set (tarjanStack e). stateIndices e w = lowlinks e g \<and> (g, w) \<in> ?E\<^sup>*)"
    and d2: "\<And>v j g. v \<in> set (tarjanStack e) \<Longrightarrow> j \<in> scanned m e it v \<Longrightarrow>
           target m v j \<in> set (tarjanStack e) \<Longrightarrow> nearest e g v \<Longrightarrow>
           lowlinks e g \<le> stateIndices e (target m v j)"
    and d3: "\<And>v w. v \<in> set (tarjanStack e) \<Longrightarrow> w \<in> set (tarjanStack e) \<Longrightarrow>
           stateIndices e v \<le> stateIndices e w \<Longrightarrow> (v, w) \<in> ?E\<^sup>*"
    and d4: "\<And>v. v \<in> set (tarjanStack e) \<Longrightarrow> \<exists>g \<in> set (recursionStateStack e).
           stateIndices e g \<le> stateIndices e v \<and> (v, g) \<in> ?E\<^sup>*"
    unfolding invLow_def by blast+
  have n1: "lowlinks ?e g \<le> stateIndices e g
        \<and> (\<exists>w \<in> set (tarjanStack e). stateIndices e w = lowlinks ?e g \<and> (g, w) \<in> ?E\<^sup>*)"
    if g: "g \<in> set (recursionStateStack e)" for g
  proof (cases "lowlinks ?e g = lowlinks e g")
    case True
    with d1[OF g] show ?thesis by simp
  next
    case False
    then have gc: "g = cur" using low_ne by blast
    from False gc have a: "t |\<in>| sub" "t |\<in>| tarjanStackStates e"
      "lowlinks ?e cur = stateIndices e t"
      by (auto simp: scanEntry_fields min_def split: if_splits)
    have "(cur, t) \<in> ?E"
      using a(1) curS target_successors[OF lt] t by (simp add: edges_def)
    moreover have "t \<in> set (tarjanStack e)" using a(2) f(6) by simp
    moreover have "lowlinks ?e cur \<le> stateIndices e cur"
      using low_le[of cur] d1[OF curR] by simp
    ultimately show ?thesis using a(3) gc by auto
  qed
  have n2: "lowlinks ?e g \<le> stateIndices e (target m v j)"
    if v: "v \<in> set (tarjanStack e)" and j: "j \<in> scanned m ?e (Suc it) v"
      and tg: "target m v j \<in> set (tarjanStack e)" and ng: "nearest e g v" for v j g
  proof (cases "j \<in> scanned m e it v")
    case True
    from d2[OF v True tg ng] low_le[of g] show ?thesis by simp
  next
    case False
    with j have vj: "v = cur" "j = it"
      unfolding scanned_scanEntry cur by (auto split: if_splits)
    from nearest_gray[OF st curR] ng vj have "g = cur" by simp
    with low_cur tg vj t show ?thesis by simp
  qed
  show ?thesis
    unfolding invLow_def scanEntry_fields(1,3,6) nearest_scanEntry
    using n1 n2 d3 d4 by blast
qed

lemma scanEntry_tarjanInv:
  assumes "tarjanInv m sub dn X e it" "cur = hd (recursionStateStack e)"
    and "t = target m cur it" "it < length (getRows m cur)"
    and "\<not> (t |\<in>| sub \<and> t |\<notin>| visitedStates e)"
  shows "tarjanInv m sub dn X (scanEntry sub dn cur t e) (Suc it)"
  using assms scanEntry_invStruct[of m sub e it dn cur t]
    scanEntry_invExplored[of m sub e it cur t dn]
    scanEntry_invClosed[of m sub dn e dn cur t]
    scanEntry_invLow[of m sub e it cur t dn]
    scanEntry_invSelf[of m dn e it cur t sub]
  by (simp add: tarjanInv_def scanEntry_fields)


subsection \<open>Descending into an unvisited successor\<close>

lemma sorted_wrt_subseq:
  "subseq xs ys \<Longrightarrow> sorted_wrt P ys \<Longrightarrow> sorted_wrt P xs"
proof (induction rule: list_emb.induct)
  case (list_emb_Nil ys) then show ?case by simp
next
  case (list_emb_Cons xs ys y) then show ?case by simp
next
  case (list_emb_Cons2 x y xs ys)
  then have "\<forall>z \<in> set xs. P x z" using list_emb_set[OF list_emb_Cons2(2)] by auto
  with list_emb_Cons2 show ?case by simp
qed

lemma invStruct_top_max:
  assumes "invStruct m sub e it" "g \<in> set (recursionStateStack e)"
  shows "stateIndices e g \<le> stateIndices e (hd (recursionStateStack e))"
proof -
  from assms(1) have ne: "recursionStateStack e \<noteq> []"
    and sq: "subseq (recursionStateStack e) (tarjanStack e)"
    and so: "sorted_wrt (\<lambda>a b. stateIndices e b < stateIndices e a) (tarjanStack e)"
    by (simp_all add: invStruct_def)
  from sorted_wrt_subseq[OF sq so] ne assms(2) show ?thesis
    by (cases "recursionStateStack e") auto
qed

text \<open>The fields after the descent into the successor \<open>c\<close> and its discovery.\<close>

lemma descend_discover_fields:
  "recursionStateStack (discover c (descend c pos e)) = c # recursionStateStack e"
  "recursionIteratorStack (discover c (descend c pos e)) = 0 # pos # tl (recursionIteratorStack e)"
  "tarjanStack (discover c (descend c pos e)) = c # tarjanStack e"
  "tarjanStackStates (discover c (descend c pos e)) = finsert c (tarjanStackStates e)"
  "visitedStates (discover c (descend c pos e)) = finsert c (visitedStates e)"
  "stateIndices (discover c (descend c pos e)) = (stateIndices e)(c := currentIndex e)"
  "lowlinks (discover c (descend c pos e)) = (lowlinks e)(c := currentIndex e)"
  "currentIndex (discover c (descend c pos e)) = currentIndex e + 1"
  "blocks (discover c (descend c pos e)) = blocks e"
  "statesWithSelfloop (discover c (descend c pos e)) = statesWithSelfloop e"
  by (simp_all add: discover_def descend_def)

lemma saved_descend:
  "recursionStateStack e \<noteq> [] \<Longrightarrow>
   saved (discover c (descend c pos e)) = (hd (recursionStateStack e), pos) # saved e"
  by (cases "recursionStateStack e") (simp_all add: saved_def descend_discover_fields)

lemma scanned_descend:
  "recursionStateStack e \<noteq> [] \<Longrightarrow>
   scanned m (discover c (descend c pos e)) 0 v = (if v = c then {} else scanned m e pos v)"
  by (simp add: scanned_def saved_descend descend_discover_fields)

lemma closedStates_descend:
  "c |\<notin>| visitedStates e \<Longrightarrow> closedStates (discover c (descend c pos e)) = closedStates e"
  by (auto simp: closedStates_def descend_discover_fields)

lemma descend_invStruct:
  assumes st: "invStruct m sub e pos" and lt: "pos < length (getRows m (hd (recursionStateStack e)))"
    and c: "c = target m (hd (recursionStateStack e)) pos" "c |\<in>| sub" "c |\<notin>| visitedStates e"
  shows "invStruct m sub (discover c (descend c pos e)) 0"
proof -
  note f = invStruct_facts[OF st]
  from st have ne: "recursionStateStack e \<noteq> []"
    and len: "length (recursionIteratorStack e) = length (recursionStateStack e)"
    and la: "last (recursionStateStack e) = last (tarjanStack e)"
    and so: "sorted_wrt (\<lambda>a b. stateIndices e b < stateIndices e a) (tarjanStack e)"
    and ci: "\<forall>v \<in> set (tarjanStack e). stateIndices e v < currentIndex e"
    and di: "distinct (tarjanStack e)"
    and sq: "subseq (recursionStateStack e) (tarjanStack e)"
    and ch: "chain m (hd (recursionStateStack e)) (saved e)"
    and ts: "tarjanStackStates e = fset_of_list (tarjanStack e)"
    by (simp_all add: invStruct_def)
  have cT: "c \<notin> set (tarjanStack e)" using c(3) f(3) by auto
  have tne: "tarjanStack e \<noteq> []" using ne f(2) by auto
  have ine: "recursionIteratorStack e \<noteq> []" using ne len by auto
  have so': "sorted_wrt (\<lambda>a b. ((stateIndices e)(c := currentIndex e)) b
                 < ((stateIndices e)(c := currentIndex e)) a) (tarjanStack e)"
    using so cT by (auto intro!: sorted_wrt_mono_rel[OF _ so])
  show ?thesis
    unfolding invStruct_def descend_discover_fields saved_descend[OF ne]
    using di cT f(3,4) c(1,2) ts so' ci ne sq la tne len ine lt ch
    by (auto simp: less_eq_fset.rep_eq)
qed


lemma descend_invExplored:
  assumes "invExplored m sub e pos" "recursionStateStack e \<noteq> []"
  shows "invExplored m sub (discover c (descend c pos e)) 0"
  using assms(1) unfolding invExplored_def scanned_descend[OF assms(2)] descend_discover_fields
  by auto

lemma descend_invClosed:
  assumes "invClosed m sub dn e" "c |\<notin>| visitedStates e"
  shows "invClosed m sub dn (discover c (descend c pos e))"
  using assms(1) unfolding invClosed_def closedStates_descend[OF assms(2)] descend_discover_fields
  by simp

lemma descend_invSelf:
  assumes "invSelf m dn e pos" "recursionStateStack e \<noteq> []"
  shows "invSelf m dn (discover c (descend c pos e)) 0"
  using assms(1) unfolding invSelf_def scanned_descend[OF assms(2)] descend_discover_fields
  by auto

lemma descend_invLow:
  assumes st: "invStruct m sub e pos" and ex: "invExplored m sub e pos"
    and lo: "invLow m sub e pos"
    and lt: "pos < length (getRows m (hd (recursionStateStack e)))"
    and c: "c = target m (hd (recursionStateStack e)) pos" "c |\<in>| sub" "c |\<notin>| visitedStates e"
  shows "invLow m sub (discover c (descend c pos e)) 0"
proof -
  note f = invStruct_facts[OF st]
  let ?e = "discover c (descend c pos e)"
  let ?E = "edges m sub"
  let ?cur = "hd (recursionStateStack e)"
  from st have ne: "recursionStateStack e \<noteq> []"
    and ci: "\<And>v. v \<in> set (tarjanStack e) \<Longrightarrow> stateIndices e v < currentIndex e"
    by (simp_all add: invStruct_def)
  have cT: "c \<notin> set (tarjanStack e)" using c(3) f(3) by auto
  then have cR: "c \<notin> set (recursionStateStack e)" using f(2) by auto
  have idx: "v \<in> set (tarjanStack e) \<Longrightarrow> stateIndices ?e v = stateIndices e v" for v
    using cT by (auto simp: descend_discover_fields)
  have low: "v \<in> set (tarjanStack e) \<Longrightarrow> lowlinks ?e v = lowlinks e v" for v
    using cT by (auto simp: descend_discover_fields)
  have idxc: "stateIndices ?e c = currentIndex e" "lowlinks ?e c = currentIndex e"
    by (simp_all add: descend_discover_fields)
  from lo have d1: "\<And>g. g \<in> set (recursionStateStack e) \<Longrightarrow> lowlinks e g \<le> stateIndices e g
        \<and> (\<exists>w \<in> set (tarjanStack e). stateIndices e w = lowlinks e g \<and> (g, w) \<in> ?E\<^sup>*)"
    and d2: "\<And>v j g. v \<in> set (tarjanStack e) \<Longrightarrow> j \<in> scanned m e pos v \<Longrightarrow>
           target m v j \<in> set (tarjanStack e) \<Longrightarrow> nearest e g v \<Longrightarrow>
           lowlinks e g \<le> stateIndices e (target m v j)"
    and d3: "\<And>v w. v \<in> set (tarjanStack e) \<Longrightarrow> w \<in> set (tarjanStack e) \<Longrightarrow>
           stateIndices e v \<le> stateIndices e w \<Longrightarrow> (v, w) \<in> ?E\<^sup>*"
    and d4: "\<And>v. v \<in> set (tarjanStack e) \<Longrightarrow> \<exists>g \<in> set (recursionStateStack e).
           stateIndices e g \<le> stateIndices e v \<and> (v, g) \<in> ?E\<^sup>*"
    unfolding invLow_def by blast+
  have curT: "?cur \<in> set (tarjanStack e)" using f(1,2) by auto
  have edge: "(?cur, c) \<in> ?E"
    using curT f(3,4) c(1,2) target_successors[OF lt] by (auto simp: edges_def)
  have reach_c: "(v, c) \<in> ?E\<^sup>*" if v: "v \<in> set (tarjanStack e)" for v
  proof -
    from d4[OF v] obtain g where g: "g \<in> set (recursionStateStack e)" "(v, g) \<in> ?E\<^sup>*" by auto
    from invStruct_top_max[OF st g(1)] have "(g, ?cur) \<in> ?E\<^sup>*"
      using d3[of g ?cur] g(1) f(2) curT by auto
    with g(2) edge show ?thesis by auto
  qed
  have near: "nearest e g v" if "nearest ?e g v" "v \<in> set (tarjanStack e)" for g v
  proof -
    from that(1) have a: "g = c \<or> g \<in> set (recursionStateStack e)"
      "stateIndices ?e g \<le> stateIndices ?e v"
      "\<And>g'. g' \<in> set (recursionStateStack e) \<Longrightarrow> stateIndices ?e g' \<le> stateIndices ?e v
          \<Longrightarrow> stateIndices ?e g' \<le> stateIndices ?e g"
      by (auto simp: nearest_def descend_discover_fields(1))
    have "g \<noteq> c" using a(2) idxc(1) idx[OF that(2)] ci[OF that(2)] by auto
    with a(1) have gR: "g \<in> set (recursionStateStack e)" by simp
    then have gT: "g \<in> set (tarjanStack e)" using f(2) by auto
    show ?thesis unfolding nearest_def
      using gR a(2,3) idx[OF gT] idx[OF that(2)] idx f(2) by (metis subsetD)
  qed
  have n1: "lowlinks ?e g \<le> stateIndices ?e g
        \<and> (\<exists>w \<in> set (c # tarjanStack e). stateIndices ?e w = lowlinks ?e g \<and> (g, w) \<in> ?E\<^sup>*)"
    if g: "g \<in> set (c # recursionStateStack e)" for g
  proof (cases "g = c")
    case True
    then show ?thesis using idxc by auto
  next
    case False
    with g have gR: "g \<in> set (recursionStateStack e)" by simp
    then have gT: "g \<in> set (tarjanStack e)" using f(2) by auto
    from d1[OF gR] obtain w where w: "w \<in> set (tarjanStack e)"
      "stateIndices e w = lowlinks e g" "(g, w) \<in> ?E\<^sup>*" "lowlinks e g \<le> stateIndices e g"
      by auto
    then show ?thesis using idx[OF gT] low[OF gT] idx[OF w(1)] by auto
  qed
  have n2: "lowlinks ?e g \<le> stateIndices ?e (target m v j)"
    if v: "v \<in> set (c # tarjanStack e)" and j: "j \<in> scanned m ?e 0 v"
      and tg: "target m v j \<in> set (c # tarjanStack e)" and ng: "nearest ?e g v" for v j g
  proof -
    from j have vc: "v \<noteq> c" and j': "j \<in> scanned m e pos v"
      unfolding scanned_descend[OF ne] by (auto split: if_splits)
    with v have vT: "v \<in> set (tarjanStack e)" by simp
    then have vV: "v |\<in>| visitedStates e" using f(3) by auto
    have "target m v j \<noteq> c"
    proof
      assume "target m v j = c"
      with ex vV j' c(2,3) show False unfolding invExplored_def by metis
    qed
    with tg have tT: "target m v j \<in> set (tarjanStack e)" by simp
    from near[OF ng vT] have ne': "nearest e g v" .
    then have gT: "g \<in> set (tarjanStack e)" using f(2) by (auto simp: nearest_def)
    from d2[OF vT j' tT ne'] show ?thesis using low[OF gT] idx[OF tT] by simp
  qed
  have n3: "(v, w) \<in> ?E\<^sup>*"
    if "v \<in> set (c # tarjanStack e)" "w \<in> set (c # tarjanStack e)"
      "stateIndices ?e v \<le> stateIndices ?e w" for v w
  proof (cases "w = c")
    case True
    then show ?thesis using that(1) reach_c by auto
  next
    case False
    with that(2) have wT: "w \<in> set (tarjanStack e)" by simp
    have "v \<noteq> c" using that(3) idxc(1) idx[OF wT] ci[OF wT] by auto
    with that(1) have vT: "v \<in> set (tarjanStack e)" by simp
    from d3[OF vT wT] that(3) idx[OF vT] idx[OF wT] show ?thesis by simp
  qed
  have n4: "\<exists>g \<in> set (c # recursionStateStack e).
           stateIndices ?e g \<le> stateIndices ?e v \<and> (v, g) \<in> ?E\<^sup>*"
    if "v \<in> set (c # tarjanStack e)" for v
  proof (cases "v = c")
    case True then show ?thesis by auto
  next
    case False
    with that have vT: "v \<in> set (tarjanStack e)" by simp
    from d4[OF vT] obtain g where g: "g \<in> set (recursionStateStack e)"
      "stateIndices e g \<le> stateIndices e v" "(v, g) \<in> ?E\<^sup>*" by auto
    then have gT: "g \<in> set (tarjanStack e)" using f(2) by auto
    show ?thesis using g idx[OF gT] idx[OF vT] by auto
  qed
  show ?thesis
    unfolding invLow_def descend_discover_fields(1,3)
    using n1 n2 n3 n4 by blast
qed

lemma descend_tarjanInv:
  assumes "tarjanInv m sub dn X e pos"
    and "pos < length (getRows m (hd (recursionStateStack e)))"
    and "c = target m (hd (recursionStateStack e)) pos" "c |\<in>| sub" "c |\<notin>| visitedStates e"
  shows "tarjanInv m sub dn X (discover c (descend c pos e)) 0"
proof -
  from assms(1) have ne: "recursionStateStack e \<noteq> []"
    by (simp add: tarjanInv_def invStruct_def)
  show ?thesis
    using assms descend_invStruct[of m sub e pos c] descend_invExplored[of m sub e pos c, OF _ ne]
      descend_invClosed[of m sub dn e c pos] descend_invLow[of m sub e pos c]
      descend_invSelf[of m dn e pos c, OF _ ne]
    by (auto simp: tarjanInv_def descend_discover_fields)
qed


subsection \<open>Closing the current state\<close>

text \<open>
  At the end of the rows of the current state, if its lowlink is its index, the states
  from the top of the Tarjan stack down to it form its component, and no edge leaves
  them but into closed states.
\<close>

lemma closed_reach:
  assumes "(a, u) \<in> (edges m sub)\<^sup>*" "a \<in> S"
    and "\<And>v t. v \<in> S \<Longrightarrow> t \<in> successors m v \<Longrightarrow> t |\<in>| sub \<Longrightarrow> t \<in> S"
  shows "u \<in> S"
  using assms(1,2)
proof (induction rule: rtrancl_induct)
  case base then show ?case by simp
next
  case (step y z)
  then show ?case using assms(3)[of y z] by (auto simp: edges_def)
qed

lemma sccOf_eq:
  assumes "s \<in> sccOf m sub r"
  shows "sccOf m sub s = sccOf m sub r"
  using assms unfolding sccOf_def by (auto intro: rtrancl_trans)

lemma sccOf_self: "s \<in> sccOf m sub s"
  by (simp add: sccOf_def)

lemma sorted_list_of_fset_single: "sorted_list_of_fset {|x|} = [x]"
  by (simp add: sorted_list_of_fset.rep_eq)

lemma not_gray_scanned:
  assumes "v \<notin> set (recursionStateStack e)"
    and "length (recursionIteratorStack e) = length (recursionStateStack e)"
    and "recursionStateStack e \<noteq> []"
  shows "scanned m e it v = {..<length (getRows m v)}"
proof -
  have "v \<noteq> hd (recursionStateStack e)" using assms(1,3) by auto
  moreover have "v \<notin> set (tl (recursionStateStack e))"
    using assms(1,3) by (metis list.set_sel(2))
  then have "map_of (saved e) v = None"
    unfolding saved_def using assms(2)
    by (metis (no_types, lifting) map_of_zip_is_None length_tl)
  ultimately show ?thesis by (simp add: scanned_def)
qed

lemma root_segment:
  assumes inv: "tarjanInv m sub dn X e it"
    and it: "it = length (getRows m cur)" and cur: "cur = hd (recursionStateStack e)"
    and root: "lowlinks e cur = stateIndices e cur"
    and T: "tarjanStack e = pre @ cur # post"
  shows "set (pre @ [cur]) = sccOf m sub cur"
    and "\<And>v t. v \<in> set (pre @ [cur]) \<union> closedStates e \<Longrightarrow> t \<in> successors m v \<Longrightarrow>
            t |\<in>| sub \<Longrightarrow> t \<in> set (pre @ [cur]) \<union> closedStates e"
    and "set (pre @ [cur]) \<inter> closedStates e = {}"
proof -
  let ?E = "edges m sub"
  let ?B = "set (pre @ [cur])"
  from inv have st: "invStruct m sub e it" and ex: "invExplored m sub e it"
    and cl: "invClosed m sub dn e" and lo: "invLow m sub e it"
    by (simp_all add: tarjanInv_def)
  note f = invStruct_facts[OF st]
  from st have ne: "recursionStateStack e \<noteq> []"
    and len: "length (recursionIteratorStack e) = length (recursionStateStack e)"
    and so: "sorted_wrt (\<lambda>a b. stateIndices e b < stateIndices e a) (tarjanStack e)"
    and di: "distinct (tarjanStack e)"
    and sq: "subseq (recursionStateStack e) (tarjanStack e)"
    by (simp_all add: invStruct_def)
  from lo have d2: "\<And>v j g. v \<in> set (tarjanStack e) \<Longrightarrow> j \<in> scanned m e it v \<Longrightarrow>
           target m v j \<in> set (tarjanStack e) \<Longrightarrow> nearest e g v \<Longrightarrow>
           lowlinks e g \<le> stateIndices e (target m v j)"
    and d3: "\<And>v w. v \<in> set (tarjanStack e) \<Longrightarrow> w \<in> set (tarjanStack e) \<Longrightarrow>
           stateIndices e v \<le> stateIndices e w \<Longrightarrow> (v, w) \<in> ?E\<^sup>*"
    and d4: "\<And>v. v \<in> set (tarjanStack e) \<Longrightarrow> \<exists>g \<in> set (recursionStateStack e).
           stateIndices e g \<le> stateIndices e v \<and> (v, g) \<in> ?E\<^sup>*"
    unfolding invLow_def by blast+
  have curR: "cur \<in> set (recursionStateStack e)" using f(1) cur by simp
  have curT: "cur \<in> set (tarjanStack e)" using T by simp
  have BT: "?B \<subseteq> set (tarjanStack e)" using T by auto
  have idxB: "stateIndices e cur \<le> stateIndices e v" if "v \<in> ?B" for v
    using so that unfolding T by (auto simp: sorted_wrt_append less_imp_le)
  have idxP: "stateIndices e w < stateIndices e cur" if "w \<in> set post" for w
    using so that unfolding T by (auto simp: sorted_wrt_append)
  have R1: "subseq (tl (recursionStateStack e)) post"
  proof -
    have c: "cur \<notin> set pre" using di T by auto
    have "subseq (cur # tl (recursionStateStack e)) (pre @ cur # post)"
      using sq ne cur T by (metis list.collapse)
    with c show ?thesis by (rule subseq_pop)
  qed
  have gray: "v \<notin> set (recursionStateStack e)" if "v \<in> set pre" for v
  proof
    assume "v \<in> set (recursionStateStack e)"
    moreover have "v \<noteq> cur" using that di T by auto
    ultimately have "v \<in> set (tl (recursionStateStack e))"
      using ne cur by (cases "recursionStateStack e") auto
    then have "v \<in> set post" using list_emb_set[OF R1] by auto
    with that di T show False by auto
  qed
  have allScanned: "scanned m e it v = {..<length (getRows m v)}" if "v \<in> ?B" for v
  proof (cases "v = cur")
    case True then show ?thesis by (simp add: scanned_def cur it)
  next
    case False
    with that have "v \<in> set pre" by simp
    from not_gray_scanned[OF gray[OF this] len ne] show ?thesis .
  qed
  have near: "nearest e cur v" if "v \<in> ?B" for v
    unfolding nearest_def using curR idxB[OF that] invStruct_top_max[OF st] cur by auto
  show closure: "t \<in> ?B \<union> closedStates e"
    if v: "v \<in> ?B \<union> closedStates e" and t: "t \<in> successors m v" "t |\<in>| sub" for v t
  proof (cases "v \<in> ?B")
    case False
    with v have "v \<in> closedStates e" by simp
    with cl t show ?thesis unfolding invClosed_def by blast
  next
    case True
    from successors_target[OF t(1)] obtain j where j: "j < length (getRows m v)"
      "target m v j = t" by auto
    then have js: "j \<in> scanned m e it v" using allScanned[OF True] by simp
    have vT: "v \<in> set (tarjanStack e)" using True BT by auto
    then have "v |\<in>| visitedStates e" using f(3) by auto
    with ex js j(2) t(2) have tV: "t |\<in>| visitedStates e" unfolding invExplored_def by blast
    show ?thesis
    proof (cases "t \<in> set (tarjanStack e)")
      case False
      with tV show ?thesis by (simp add: closedStates_def)
    next
      case tT: True
      from d2[OF vT js _ near[OF True]] tT j(2) root
      have "stateIndices e cur \<le> stateIndices e t" by simp
      with idxP[of t] tT show ?thesis unfolding T by auto
    qed
  qed
  show disj: "?B \<inter> closedStates e = {}" using BT by (auto simp: closedStates_def)
  show "?B = sccOf m sub cur"
  proof (intro set_eqI iffI)
    fix v assume v: "v \<in> ?B"
    then have vT: "v \<in> set (tarjanStack e)" using BT by auto
    from d3[OF curT vT idxB[OF v]] have a: "(cur, v) \<in> ?E\<^sup>*" .
    from d4[OF vT] obtain g where g: "g \<in> set (recursionStateStack e)" "(v, g) \<in> ?E\<^sup>*" by auto
    from d3[of g cur] g(1) f(2) curT invStruct_top_max[OF st g(1)] cur
    have "(g, cur) \<in> ?E\<^sup>*" by auto
    with g(2) have "(v, cur) \<in> ?E\<^sup>*" by auto
    with a show "v \<in> sccOf m sub cur" by (simp add: sccOf_def)
  next
    fix u assume "u \<in> sccOf m sub cur"
    then have u: "(cur, u) \<in> ?E\<^sup>*" "(u, cur) \<in> ?E\<^sup>*" by (simp_all add: sccOf_def)
    have "u \<in> ?B \<union> closedStates e"
      by (rule closed_reach[OF u(1)]) (use closure in auto)
    moreover have "u \<notin> closedStates e"
    proof
      assume "u \<in> closedStates e"
      have "cur \<in> closedStates e"
        by (rule closed_reach[OF u(2) \<open>u \<in> closedStates e\<close>])
           (use cl in \<open>unfold invClosed_def, blast\<close>)
      with curT show False by (simp add: closedStates_def)
    qed
    ultimately show "u \<in> ?B" by simp
  qed
qed


lemma split_unique:
  "pre' @ x # post' = pre @ x # post \<Longrightarrow> x \<notin> set pre' \<Longrightarrow> x \<notin> set pre \<Longrightarrow>
   pre' = pre \<and> post' = post"
proof (induction pre' arbitrary: pre)
  case Nil then show ?case by (cases pre) auto
next
  case (Cons a pre')
  then show ?case by (cases pre) auto
qed

lemma subseq_distinct: "distinct ys \<Longrightarrow> subseq xs ys \<Longrightarrow> distinct xs"
  using subseqs_distinctD[of xs ys] by simp

lemma closeState_same:
  "visitedStates (closeState dn ob cur e) = visitedStates e"
  "stateIndices (closeState dn ob cur e) = stateIndices e"
  "lowlinks (closeState dn ob cur e) = lowlinks e"
  "currentIndex (closeState dn ob cur e) = currentIndex e"
  "statesWithSelfloop (closeState dn ob cur e) = statesWithSelfloop e"
  "recursionStateStack (closeState dn ob cur e) = tl (recursionStateStack e)"
  "recursionIteratorStack (closeState dn ob cur e) = tl (recursionIteratorStack e)"
  by (auto simp: closeState_def Let_def split: prod.splits)

lemma closeState_nonroot:
  assumes "lowlinks e cur \<noteq> stateIndices e cur"
  shows "tarjanStack (closeState dn ob cur e) = tarjanStack e"
    "tarjanStackStates (closeState dn ob cur e) = tarjanStackStates e"
    "blocks (closeState dn ob cur e) = blocks e"
  using assms by (simp_all add: closeState_def)

lemma closeState_root:
  assumes "lowlinks e cur = stateIndices e cur" "tarjanStack e = pre @ cur # post"
    "cur \<notin> set pre"
  shows "tarjanStack (closeState dn False cur e) = post"
    "tarjanStackStates (closeState dn False cur e)
       = tarjanStackStates e |-| fset_of_list (pre @ [cur])"
    "blocks (closeState dn False cur e) =
       (if \<not> dn \<or> fcard (fset_of_list (pre @ [cur])) > 1
            \<or> sccBegin (fset_of_list (pre @ [cur])) |\<in>| statesWithSelfloop e
        then blocks e @ [fset_of_list (pre @ [cur])] else blocks e)"
proof -
  have c: "cur \<in> set (tarjanStack e)" using assms(2) by simp
  from popLoop_split[OF c, of False "statesThatCanLeaveTheirScc e" "tarjanStackStates e" "{||}" True]
  obtain pre' post' where st: "tarjanStack e = pre' @ cur # post'" and np: "cur \<notin> set pre'"
    and pl: "popLoop False (statesThatCanLeaveTheirScc e) cur (tarjanStack e)
               (tarjanStackStates e) {||} True =
               (post', tarjanStackStates e |-| fset_of_list (pre' @ [cur]),
                {||} |\<union>| fset_of_list (pre' @ [cur]), True)"
    by auto
  have "pre' = pre \<and> post' = post"
    using st np assms(2,3) split_unique[of pre' cur post' pre post] by simp
  with pl have pl': "popLoop False (statesThatCanLeaveTheirScc e) cur (tarjanStack e)
               (tarjanStackStates e) {||} True =
               (post, tarjanStackStates e |-| fset_of_list (pre @ [cur]),
                fset_of_list (pre @ [cur]), True)" by simp
  show "tarjanStack (closeState dn False cur e) = post"
    "tarjanStackStates (closeState dn False cur e)
       = tarjanStackStates e |-| fset_of_list (pre @ [cur])"
    "blocks (closeState dn False cur e) =
       (if \<not> dn \<or> fcard (fset_of_list (pre @ [cur])) > 1
            \<or> sccBegin (fset_of_list (pre @ [cur])) |\<in>| statesWithSelfloop e
        then blocks e @ [fset_of_list (pre @ [cur])] else blocks e)"
    using assms(1) pl' by (auto simp: closeState_def Let_def)
qed

lemma stepBackward_fields:
  "recursionStateStack (stepBackward False p c e) = recursionStateStack e"
  "recursionIteratorStack (stepBackward False p c e) = recursionIteratorStack e"
  "tarjanStack (stepBackward False p c e) = tarjanStack e"
  "tarjanStackStates (stepBackward False p c e) = tarjanStackStates e"
  "visitedStates (stepBackward False p c e) = visitedStates e"
  "stateIndices (stepBackward False p c e) = stateIndices e"
  "currentIndex (stepBackward False p c e) = currentIndex e"
  "blocks (stepBackward False p c e) = blocks e"
  "statesWithSelfloop (stepBackward False p c e) = statesWithSelfloop e"
  "lowlinks (stepBackward False p c e) = (lowlinks e)(p := min (lowlinks e p) (lowlinks e c))"
  by (simp_all add: stepBackward_def Let_def)

text \<open>
  The recursion stacks when the current state returns to its parent \<open>p\<close>, whose saved
  iterator is \<open>q\<close>.
\<close>

lemma return_frames:
  assumes st: "invStruct m sub e it" and ne: "tl (recursionStateStack e) \<noteq> []"
  obtains p q R2 IT2 i0 where
    "recursionStateStack e = hd (recursionStateStack e) # p # R2"
    "recursionIteratorStack e = i0 # q # IT2" "length IT2 = length R2"
    "q < length (getRows m p)" "target m p q = hd (recursionStateStack e)"
    "chain m p (zip R2 IT2)" "p \<noteq> hd (recursionStateStack e)"
    "hd (recursionStateStack e) \<notin> set R2" "p \<notin> set R2"
    "saved e = (p, q) # zip R2 IT2"
proof -
  from st have rne: "recursionStateStack e \<noteq> []"
    and len: "length (recursionIteratorStack e) = length (recursionStateStack e)"
    and ch: "chain m (hd (recursionStateStack e)) (saved e)"
    and di: "distinct (tarjanStack e)"
    and sq: "subseq (recursionStateStack e) (tarjanStack e)"
    by (simp_all add: invStruct_def)
  from rne ne obtain p R2 where R: "recursionStateStack e = hd (recursionStateStack e) # p # R2"
    by (metis list.collapse)
  with len obtain i0 q IT2 where IT: "recursionIteratorStack e = i0 # q # IT2"
    "length IT2 = length R2"
    by (metis length_Suc_conv)
  have sv: "saved e = (p, q) # zip R2 IT2"
    unfolding saved_def by (subst R, subst IT) simp
  from ch have c: "q < length (getRows m p)" "target m p q = hd (recursionStateStack e)"
    "chain m p (zip R2 IT2)" unfolding sv by simp_all
  have "distinct (recursionStateStack e)" using subseq_distinct[OF di sq] .
  then have d: "p \<noteq> hd (recursionStateStack e)" "hd (recursionStateStack e) \<notin> set R2"
    "p \<notin> set R2"
    by (subst (asm) R, auto)+
  from that[OF R IT c d sv] show thesis .
qed

lemma scanned_return:
  assumes R: "recursionStateStack e = cur # p # R2"
    and IT: "recursionIteratorStack e = i0 # q # IT2" and len: "length IT2 = length R2"
    and d: "p \<noteq> cur" "cur \<notin> set R2"
    and R': "recursionStateStack e' = p # R2" and IT': "recursionIteratorStack e' = q # IT2"
  shows "scanned m e' (Suc q) v =
     (if v = p then insert q (scanned m e (length (getRows m cur)) v)
      else scanned m e (length (getRows m cur)) v)"
proof -
  have sv: "saved e = (p, q) # zip R2 IT2" "saved e' = zip R2 IT2"
    by (simp_all add: saved_def R IT R' IT')
  have "map_of (zip R2 IT2) cur = None"
    using d(2) len by (metis map_of_zip_is_None)
  then show ?thesis
    using d(1) by (auto simp: scanned_def sv R R' lessThan_Suc)
qed

lemma nearest_return_low:
  assumes R: "recursionStateStack e = cur # R1" and R': "recursionStateStack e' = R1"
    and idx: "stateIndices e' = stateIndices e"
    and v: "stateIndices e v < stateIndices e cur"
  shows "nearest e' g v \<longleftrightarrow> nearest e g v"
  using v unfolding nearest_def R R' idx by auto

lemma nearest_return_high:
  assumes st: "invStruct m sub e it"
    and R: "recursionStateStack e = cur # p # R2" and R': "recursionStateStack e' = p # R2"
    and idx: "stateIndices e' = stateIndices e"
    and v: "stateIndices e cur \<le> stateIndices e v"
    and n: "nearest e' g v"
  shows "g = p"
proof -
  note f = invStruct_facts[OF st]
  from st have sq: "subseq (recursionStateStack e) (tarjanStack e)"
    and so: "sorted_wrt (\<lambda>a b. stateIndices e b < stateIndices e a) (tarjanStack e)"
    by (simp_all add: invStruct_def)
  from sorted_wrt_subseq[OF sq so]
  have s: "stateIndices e p < stateIndices e cur"
    "\<And>x. x \<in> set R2 \<Longrightarrow> stateIndices e x < stateIndices e p"
    unfolding R by auto
  from n have g: "g \<in> set (p # R2)" "stateIndices e p \<le> stateIndices e g"
    using v s(1) unfolding nearest_def R' idx by auto
  show ?thesis
  proof (rule ccontr)
    assume "g \<noteq> p"
    with g(1) have "g \<in> set R2" by simp
    from s(2)[OF this] g(2) show False by simp
  qed
qed


lemma kept_code:
  assumes inv: "tarjanInv m sub dn X e it"
    and it: "it = length (getRows m cur)" and cur: "cur = hd (recursionStateStack e)"
    and B: "set (pre @ [cur]) = sccOf m sub cur"
  shows "(\<not> dn \<or> fcard (fset_of_list (pre @ [cur])) > 1
            \<or> sccBegin (fset_of_list (pre @ [cur])) |\<in>| statesWithSelfloop e)
         \<longleftrightarrow> keptScc m dn (sccOf m sub cur)"
proof (cases "dn \<and> \<not> card (set (pre @ [cur])) > 1")
  case False
  then show ?thesis
    unfolding keptScc_def B[symmetric] by (auto simp: fcard.rep_eq fset_of_list.rep_eq)
next
  case True
  from inv have se: "invSelf m dn e it" and st: "invStruct m sub e it"
    by (simp_all add: tarjanInv_def)
  note f = invStruct_facts[OF st]
  have "card (set (pre @ [cur])) \<le> 1" using True by simp
  moreover have "cur \<in> set (pre @ [cur])" by simp
  ultimately have single: "set (pre @ [cur]) = {cur}"
    using card_le_Suc0_iff_eq[of "set (pre @ [cur])"] by auto
  have fs: "fset_of_list (pre @ [cur]) = {|cur|}"
  proof (rule fset_eqI)
    fix x show "x |\<in>| fset_of_list (pre @ [cur]) \<longleftrightarrow> x |\<in>| {|cur|}"
      using single unfolding fset_of_list_elem by auto
  qed
  have beg: "sccBegin (fset_of_list (pre @ [cur])) = cur"
    unfolding fs sccBegin_def sorted_list_of_fset_single by simp
  have "cur |\<in>| statesWithSelfloop e \<longleftrightarrow> cur \<in> successors m cur"
  proof
    assume "cur |\<in>| statesWithSelfloop e"
    with se True show "cur \<in> successors m cur" by (simp add: invSelf_def)
  next
    assume "cur \<in> successors m cur"
    from successors_target[OF this] obtain j where j: "j < length (getRows m cur)"
      "target m cur j = cur" by auto
    then have "j \<in> scanned m e it cur" by (simp add: scanned_def cur it)
    with se True j(2) f(1) cur show "cur |\<in>| statesWithSelfloop e"
      unfolding invSelf_def by blast
  qed
  then show ?thesis
    using True single unfolding keptScc_def B[symmetric] beg
    by (auto simp: fcard.rep_eq fset_of_list.rep_eq)
qed


lemma invClosedD:
  assumes "invClosed m sub dn e"
  shows "\<And>v t. v \<in> closedStates e \<Longrightarrow> t \<in> successors m v \<Longrightarrow> t |\<in>| sub \<Longrightarrow>
            t \<in> closedStates e"
    and "\<And>B. B \<in> set (blocks e) \<Longrightarrow>
            \<exists>s \<in> closedStates e. fset B = sccOf m sub s \<and> keptScc m dn (fset B)"
    and "\<And>s. s \<in> closedStates e \<Longrightarrow> keptScc m dn (sccOf m sub s) \<Longrightarrow>
            \<exists>B \<in> set (blocks e). fset B = sccOf m sub s"
  using assms unfolding invClosed_def by blast+

lemma invClosedI:
  assumes "\<And>v t. v \<in> closedStates e \<Longrightarrow> t \<in> successors m v \<Longrightarrow> t |\<in>| sub \<Longrightarrow>
            t \<in> closedStates e"
    and "\<And>B. B \<in> set (blocks e) \<Longrightarrow>
            \<exists>s \<in> closedStates e. fset B = sccOf m sub s \<and> keptScc m dn (fset B)"
    and "\<And>s. s \<in> closedStates e \<Longrightarrow> keptScc m dn (sccOf m sub s) \<Longrightarrow>
            \<exists>B \<in> set (blocks e). fset B = sccOf m sub s"
  shows "invClosed m sub dn e"
  unfolding invClosed_def using assms by blast

lemma root_invClosed:
  assumes inv: "tarjanInv m sub dn X e it"
    and it: "it = length (getRows m cur)" and cur: "cur = hd (recursionStateStack e)"
    and root: "lowlinks e cur = stateIndices e cur"
    and T: "tarjanStack e = pre @ cur # post"
    and e': "visitedStates e' = visitedStates e" "tarjanStack e' = post"
    and b': "blocks e' = (if \<not> dn \<or> fcard (fset_of_list (pre @ [cur])) > 1
            \<or> sccBegin (fset_of_list (pre @ [cur])) |\<in>| statesWithSelfloop e
        then blocks e @ [fset_of_list (pre @ [cur])] else blocks e)"
  shows "invClosed m sub dn e'"
proof (rule invClosedI)
  let ?B = "set (pre @ [cur])"
  note seg = root_segment[OF inv it cur root T]
  note kc = kept_code[OF inv it cur seg(1)]
  from inv have st: "invStruct m sub e it" and cl: "invClosed m sub dn e"
    by (simp_all add: tarjanInv_def)
  note f = invStruct_facts[OF st]
  note c = invClosedD[OF cl]
  from st have di: "distinct (tarjanStack e)" by (simp add: invStruct_def)
  have cs: "closedStates e' = ?B \<union> closedStates e"
    using di f(3) unfolding closedStates_def e' T by auto
  show "t \<in> closedStates e'"
    if "v \<in> closedStates e'" "t \<in> successors m v" "t |\<in>| sub" for v t
    using that unfolding cs by (rule seg(2))
  show "\<exists>s \<in> closedStates e'. fset B = sccOf m sub s \<and> keptScc m dn (fset B)"
    if "B \<in> set (blocks e')" for B
  proof (cases "B \<in> set (blocks e)")
    case True
    from c(2)[OF True] show ?thesis unfolding cs by auto
  next
    case False
    have k: "\<not> dn \<or> fcard (fset_of_list (pre @ [cur])) > 1
            \<or> sccBegin (fset_of_list (pre @ [cur])) |\<in>| statesWithSelfloop e"
    proof (rule ccontr)
      assume "\<not> ?thesis"
      then have "blocks e' = blocks e" using b' by simp
      with that False show False by simp
    qed
    then have "blocks e' = blocks e @ [fset_of_list (pre @ [cur])]" using b' by simp
    with that False have b: "B = fset_of_list (pre @ [cur])" by simp
    have "fset B = sccOf m sub cur" unfolding b fset_of_list.rep_eq by (rule seg(1))
    moreover have "keptScc m dn (sccOf m sub cur)" using k kc by simp
    moreover have "cur \<in> closedStates e'" unfolding cs by simp
    ultimately show ?thesis by auto
  qed
  show "\<exists>B \<in> set (blocks e'). fset B = sccOf m sub s"
    if s: "s \<in> closedStates e'" and k: "keptScc m dn (sccOf m sub s)" for s
  proof (cases "s \<in> closedStates e")
    case True
    from c(3)[OF True k] obtain B where "B \<in> set (blocks e)" "fset B = sccOf m sub s"
      by auto
    moreover have "set (blocks e) \<subseteq> set (blocks e')" using b' by auto
    ultimately show ?thesis by auto
  next
    case False
    with s have "s \<in> ?B" unfolding cs by simp
    then have eq: "sccOf m sub s = sccOf m sub cur"
      unfolding seg(1) by (rule sccOf_eq)
    with k kc have "blocks e' = blocks e @ [fset_of_list (pre @ [cur])]"
      using b' by simp
    moreover have "fset (fset_of_list (pre @ [cur])) = sccOf m sub s"
      unfolding eq fset_of_list.rep_eq by (rule seg(1))
    ultimately show ?thesis by auto
  qed
qed


text \<open>Between two searches the Tarjan stack is empty.\<close>

definition topInv :: "'v model \<Rightarrow> BitVector \<Rightarrow> bool \<Rightarrow> env \<Rightarrow> bool" where
  "topInv m sub dn e \<longleftrightarrow>
     tarjanStack e = [] \<and> tarjanStackStates e = {||} \<and> visitedStates e |\<subseteq>| sub
     \<and> invClosed m sub dn e"

lemma bottom_is_root:
  assumes inv: "tarjanInv m sub dn X e it" and cur: "cur = hd (recursionStateStack e)"
    and tl: "tl (recursionStateStack e) = []"
  shows "lowlinks e cur = stateIndices e cur" "\<exists>pre. tarjanStack e = pre @ [cur]"
proof -
  from inv have st: "invStruct m sub e it" and lo: "invLow m sub e it"
    by (simp_all add: tarjanInv_def)
  note f = invStruct_facts[OF st]
  from st have ne: "recursionStateStack e \<noteq> []"
    and la: "last (recursionStateStack e) = last (tarjanStack e)"
    and so: "sorted_wrt (\<lambda>a b. stateIndices e b < stateIndices e a) (tarjanStack e)"
    by (simp_all add: invStruct_def)
  have R: "recursionStateStack e = [cur]" using ne tl cur by (cases "recursionStateStack e") auto
  have tne: "tarjanStack e \<noteq> []" using f(1,2) by auto
  have "last (tarjanStack e) = cur" using la R by simp
  with tne have T: "tarjanStack e = butlast (tarjanStack e) @ [cur]"
    by (metis append_butlast_last_id)
  then show "\<exists>pre. tarjanStack e = pre @ [cur]" by blast
  have ge: "stateIndices e cur \<le> stateIndices e w" if "w \<in> set (tarjanStack e)" for w
    using so that by (subst (asm) T, subst (asm) (2) T) (auto simp: sorted_wrt_append less_imp_le)
  from lo R obtain w where w: "w \<in> set (tarjanStack e)" "stateIndices e w = lowlinks e cur"
    "lowlinks e cur \<le> stateIndices e cur"
    unfolding invLow_def by auto
  with ge[OF w(1)] show "lowlinks e cur = stateIndices e cur" by simp
qed

lemma final_topInv:
  assumes inv: "tarjanInv m sub dn X e it"
    and it: "it = length (getRows m cur)" and cur: "cur = hd (recursionStateStack e)"
    and tl: "tl (recursionStateStack e) = []"
  shows "topInv m sub dn (closeState dn False cur e)"
    and "X |\<subseteq>| visitedStates (closeState dn False cur e)"
proof -
  from inv have st: "invStruct m sub e it" and X: "X |\<subseteq>| visitedStates e"
    by (simp_all add: tarjanInv_def)
  note f = invStruct_facts[OF st]
  from st have di: "distinct (tarjanStack e)"
    and ts: "tarjanStackStates e = fset_of_list (tarjanStack e)"
    and vs: "visitedStates e |\<subseteq>| sub"
    by (simp_all add: invStruct_def)
  from bottom_is_root[OF inv cur tl] obtain pre where root: "lowlinks e cur = stateIndices e cur"
    and T: "tarjanStack e = pre @ cur # []" by auto
  have np: "cur \<notin> set pre" using di T by auto
  note cr = closeState_root[OF root T np, of dn]
  have "invClosed m sub dn (closeState dn False cur e)"
    by (rule root_invClosed[OF inv it cur root T closeState_same(1) cr(1) cr(3)])
  moreover have "tarjanStackStates (closeState dn False cur e) = {||}"
    unfolding cr(2) ts T by auto
  ultimately show "topInv m sub dn (closeState dn False cur e)"
    unfolding topInv_def using cr(1) vs by (simp add: closeState_same)
  show "X |\<subseteq>| visitedStates (closeState dn False cur e)"
    using X by (simp add: closeState_same)
qed


lemma invLowD:
  assumes "invLow m sub e it"
  shows "\<And>g. g \<in> set (recursionStateStack e) \<Longrightarrow> lowlinks e g \<le> stateIndices e g
        \<and> (\<exists>w \<in> set (tarjanStack e). stateIndices e w = lowlinks e g
               \<and> (g, w) \<in> (edges m sub)\<^sup>*)"
    and "\<And>v j g. v \<in> set (tarjanStack e) \<Longrightarrow> j \<in> scanned m e it v \<Longrightarrow>
           target m v j \<in> set (tarjanStack e) \<Longrightarrow> nearest e g v \<Longrightarrow>
           lowlinks e g \<le> stateIndices e (target m v j)"
    and "\<And>v w. v \<in> set (tarjanStack e) \<Longrightarrow> w \<in> set (tarjanStack e) \<Longrightarrow>
           stateIndices e v \<le> stateIndices e w \<Longrightarrow> (v, w) \<in> (edges m sub)\<^sup>*"
    and "\<And>v. v \<in> set (tarjanStack e) \<Longrightarrow> \<exists>g \<in> set (recursionStateStack e).
           stateIndices e g \<le> stateIndices e v \<and> (v, g) \<in> (edges m sub)\<^sup>*"
  using assms unfolding invLow_def by blast+

lemma invLowI:
  assumes "\<And>g. g \<in> set (recursionStateStack e) \<Longrightarrow> lowlinks e g \<le> stateIndices e g
        \<and> (\<exists>w \<in> set (tarjanStack e). stateIndices e w = lowlinks e g
               \<and> (g, w) \<in> (edges m sub)\<^sup>*)"
    and "\<And>v j g. v \<in> set (tarjanStack e) \<Longrightarrow> j \<in> scanned m e it v \<Longrightarrow>
           target m v j \<in> set (tarjanStack e) \<Longrightarrow> nearest e g v \<Longrightarrow>
           lowlinks e g \<le> stateIndices e (target m v j)"
    and "\<And>v w. v \<in> set (tarjanStack e) \<Longrightarrow> w \<in> set (tarjanStack e) \<Longrightarrow>
           stateIndices e v \<le> stateIndices e w \<Longrightarrow> (v, w) \<in> (edges m sub)\<^sup>*"
    and "\<And>v. v \<in> set (tarjanStack e) \<Longrightarrow> \<exists>g \<in> set (recursionStateStack e).
           stateIndices e g \<le> stateIndices e v \<and> (v, g) \<in> (edges m sub)\<^sup>*"
  shows "invLow m sub e it"
  unfolding invLow_def using assms by blast

lemma root_return_tarjanInv:
  assumes inv: "tarjanInv m sub dn X e it"
    and it: "it = length (getRows m cur)" and cur: "cur = hd (recursionStateStack e)"
    and root: "lowlinks e cur = stateIndices e cur"
    and R: "recursionStateStack e = cur # p # R2"
    and IT: "recursionIteratorStack e = i0 # q # IT2" and len: "length IT2 = length R2"
    and ch: "q < length (getRows m p)" "target m p q = cur" "chain m p (zip R2 IT2)"
    and d: "p \<noteq> cur" "cur \<notin> set R2" "p \<notin> set R2"
  shows "tarjanInv m sub dn X (stepBackward False p cur (closeState dn False cur e)) (Suc q)"
proof -
  let ?e1 = "closeState dn False cur e"
  let ?e2 = "stepBackward False p cur ?e1"
  let ?E = "edges m sub"
  from inv have st: "invStruct m sub e it" and ex: "invExplored m sub e it"
    and lo: "invLow m sub e it" and se: "invSelf m dn e it" and X: "X |\<subseteq>| visitedStates e"
    by (simp_all add: tarjanInv_def)
  note f = invStruct_facts[OF st]
  note l = invLowD[OF lo]
  from st have di: "distinct (tarjanStack e)"
    and ts: "tarjanStackStates e = fset_of_list (tarjanStack e)"
    and vs: "visitedStates e |\<subseteq>| sub"
    and so: "sorted_wrt (\<lambda>a b. stateIndices e b < stateIndices e a) (tarjanStack e)"
    and ci: "\<forall>v \<in> set (tarjanStack e). stateIndices e v < currentIndex e"
    and sq: "subseq (recursionStateStack e) (tarjanStack e)"
    and la: "last (recursionStateStack e) = last (tarjanStack e)"
    by (simp_all add: invStruct_def)
  have curT: "cur \<in> set (tarjanStack e)" using f(1,2) cur by auto
  from split_list_first[OF curT] obtain pre post where T: "tarjanStack e = pre @ cur # post"
    and np: "cur \<notin> set pre" by auto
  note cr = closeState_root[OF root T np, of dn]
  have sqp: "subseq (p # R2) post"
    using sq np unfolding R T by (rule subseq_pop[rotated])
  then have pT: "p \<in> set post" using list_emb_set[OF sqp, of p] by auto
  have idxP: "stateIndices e w < stateIndices e cur" if "w \<in> set post" for w
    using so that unfolding T by (auto simp: sorted_wrt_append)
  have idxB: "stateIndices e cur \<le> stateIndices e w" if "w \<in> set (pre @ [cur])" for w
    using so that unfolding T by (auto simp: sorted_wrt_append less_imp_le)
  have lowp: "lowlinks e p \<le> stateIndices e p" using l(1)[of p] R by simp
  have low2: "lowlinks ?e2 = lowlinks e"
    using lowp idxP[OF pT] root
    by (auto simp: stepBackward_fields closeState_same fun_eq_iff min_def)
  have fld: "recursionStateStack ?e2 = p # R2" "recursionIteratorStack ?e2 = q # IT2"
    "tarjanStack ?e2 = post" "visitedStates ?e2 = visitedStates e"
    "stateIndices ?e2 = stateIndices e" "currentIndex ?e2 = currentIndex e"
    "statesWithSelfloop ?e2 = statesWithSelfloop e"
    "tarjanStackStates ?e2 = tarjanStackStates e |-| fset_of_list (pre @ [cur])"
    by (simp_all add: stepBackward_fields closeState_same cr R IT)
  have sc: "scanned m ?e2 (Suc q) v =
     (if v = p then insert q (scanned m e it v) else scanned m e it v)" for v
    unfolding it by (rule scanned_return[OF R IT len d(1,2) fld(1,2)])
  have sv: "saved ?e2 = zip R2 IT2" by (simp add: saved_def fld)
  have s1: "invStruct m sub ?e2 (Suc q)"
  proof -
    have "tarjanStackStates ?e2 = fset_of_list post"
      unfolding fld ts T using di T by (auto simp: fset_of_list.rep_eq)
    moreover have "last (p # R2) = last post"
      using la pT unfolding R T by (cases post) auto
    moreover have "sorted_wrt (\<lambda>a b. stateIndices e b < stateIndices e a) post"
      using so unfolding T by (simp add: sorted_wrt_append)
    ultimately show ?thesis
      unfolding invStruct_def fld sv
      using di f(3) vs ci sqp len ch T by auto
  qed
  have s2: "invExplored m sub ?e2 (Suc q)"
    using ex f(3) curT ch(2) unfolding invExplored_def sc fld
    by (auto split: if_splits)
  have s3: "invClosed m sub dn ?e2"
    by (rule root_invClosed[OF inv it cur root T fld(4) fld(3)])
       (simp add: stepBackward_fields cr)
  have s4: "invLow m sub ?e2 (Suc q)"
  proof (rule invLowI)
    fix g assume g: "g \<in> set (recursionStateStack ?e2)"
    then have gR: "g \<in> set (recursionStateStack e)" unfolding fld R by auto
    from l(1)[OF gR] obtain w where w: "lowlinks e g \<le> stateIndices e g"
      "w \<in> set (tarjanStack e)" "stateIndices e w = lowlinks e g" "(g, w) \<in> ?E\<^sup>*" by auto
    have "g \<in> set post" using g list_emb_set[OF sqp, of g] unfolding fld by auto
    from idxP[OF this] w(1,3) have "stateIndices e w < stateIndices e cur" by simp
    with idxB[of w] w(2) have "w \<in> set post" unfolding T by auto
    with w show "lowlinks ?e2 g \<le> stateIndices ?e2 g
        \<and> (\<exists>w \<in> set (tarjanStack ?e2). stateIndices ?e2 w = lowlinks ?e2 g \<and> (g, w) \<in> ?E\<^sup>*)"
      unfolding low2 fld by auto
  next
    fix v j g
    assume a: "v \<in> set (tarjanStack ?e2)" "j \<in> scanned m ?e2 (Suc q) v"
      "target m v j \<in> set (tarjanStack ?e2)" "nearest ?e2 g v"
    from a(1) have vp: "v \<in> set post" unfolding fld .
    then have vT: "v \<in> set (tarjanStack e)" unfolding T by simp
    have tT: "target m v j \<in> set (tarjanStack e)" using a(3) unfolding fld T by simp
    have n: "nearest e g v"
      using a(4) nearest_return_low[of e cur "p # R2" ?e2 v g] idxP[OF vp] R fld by simp
    have "j \<in> scanned m e it v"
    proof (rule ccontr)
      assume "j \<notin> scanned m e it v"
      with a(2) have "v = p" "j = q" unfolding sc by (auto split: if_splits)
      with a(3) ch(2) have "cur \<in> set post" unfolding fld by simp
      with di T show False by auto
    qed
    from l(2)[OF vT this tT n]
    show "lowlinks ?e2 g \<le> stateIndices ?e2 (target m v j)" unfolding low2 fld .
  next
    fix v w assume "v \<in> set (tarjanStack ?e2)" "w \<in> set (tarjanStack ?e2)"
      "stateIndices ?e2 v \<le> stateIndices ?e2 w"
    then show "(v, w) \<in> ?E\<^sup>*" using l(3)[of v w] unfolding fld T by auto
  next
    fix v assume "v \<in> set (tarjanStack ?e2)"
    then have vp: "v \<in> set post" unfolding fld .
    then have vT: "v \<in> set (tarjanStack e)" unfolding T by simp
    from l(4)[OF vT] obtain g where g: "g \<in> set (recursionStateStack e)"
      "stateIndices e g \<le> stateIndices e v" "(v, g) \<in> ?E\<^sup>*" by auto
    have "g \<noteq> cur" using g(2) idxP[OF vp] by auto
    with g show "\<exists>g \<in> set (recursionStateStack ?e2).
           stateIndices ?e2 g \<le> stateIndices ?e2 v \<and> (v, g) \<in> ?E\<^sup>*"
      unfolding fld R by auto
  qed
  have s5: "invSelf m dn ?e2 (Suc q)"
    using se ch(2) d(1) unfolding invSelf_def sc fld R
    by (auto split: if_splits)
  show ?thesis unfolding tarjanInv_def using s1 s2 s3 s4 s5 X fld(4) by simp
qed


lemma nonroot_return_tarjanInv:
  assumes inv: "tarjanInv m sub dn X e it"
    and it: "it = length (getRows m cur)" and cur: "cur = hd (recursionStateStack e)"
    and nroot: "lowlinks e cur \<noteq> stateIndices e cur"
    and R: "recursionStateStack e = cur # p # R2"
    and IT: "recursionIteratorStack e = i0 # q # IT2" and len: "length IT2 = length R2"
    and ch: "q < length (getRows m p)" "target m p q = cur" "chain m p (zip R2 IT2)"
    and d: "p \<noteq> cur" "cur \<notin> set R2" "p \<notin> set R2"
  shows "tarjanInv m sub dn X (stepBackward False p cur (closeState dn False cur e)) (Suc q)"
proof -
  let ?e1 = "closeState dn False cur e"
  let ?e2 = "stepBackward False p cur ?e1"
  let ?E = "edges m sub"
  from inv have st: "invStruct m sub e it" and ex: "invExplored m sub e it"
    and lo: "invLow m sub e it" and se: "invSelf m dn e it" and X: "X |\<subseteq>| visitedStates e"
    and cl: "invClosed m sub dn e"
    by (simp_all add: tarjanInv_def)
  note f = invStruct_facts[OF st]
  note l = invLowD[OF lo]
  from st have di: "distinct (tarjanStack e)"
    and ts: "tarjanStackStates e = fset_of_list (tarjanStack e)"
    and vs: "visitedStates e |\<subseteq>| sub"
    and so: "sorted_wrt (\<lambda>a b. stateIndices e b < stateIndices e a) (tarjanStack e)"
    and ci: "\<forall>v \<in> set (tarjanStack e). stateIndices e v < currentIndex e"
    and sq: "subseq (recursionStateStack e) (tarjanStack e)"
    and la: "last (recursionStateStack e) = last (tarjanStack e)"
    by (simp_all add: invStruct_def)
  note cr = closeState_nonroot[OF nroot, of dn False]
  have curR: "cur \<in> set (recursionStateStack e)" and pR: "p \<in> set (recursionStateStack e)"
    unfolding R by simp_all
  then have curT: "cur \<in> set (tarjanStack e)" and pT: "p \<in> set (tarjanStack e)"
    using f(2) by auto
  have pS: "p |\<in>| sub" and curS: "cur |\<in>| sub" using pT curT f(3,4) by auto
  from sorted_wrt_subseq[OF sq so]
  have idxp: "stateIndices e p < stateIndices e cur"
    and idxR2: "\<And>x. x \<in> set R2 \<Longrightarrow> stateIndices e x < stateIndices e p"
    unfolding R by auto
  have lowc: "lowlinks e cur < stateIndices e cur" using l(1)[OF curR] nroot by simp
  have edge: "(p, cur) \<in> ?E"
    using pS curS target_successors[OF ch(1)] ch(2) by (simp add: edges_def)
  have fld: "recursionStateStack ?e2 = p # R2" "recursionIteratorStack ?e2 = q # IT2"
    "tarjanStack ?e2 = tarjanStack e" "visitedStates ?e2 = visitedStates e"
    "stateIndices ?e2 = stateIndices e" "currentIndex ?e2 = currentIndex e"
    "statesWithSelfloop ?e2 = statesWithSelfloop e"
    "tarjanStackStates ?e2 = tarjanStackStates e" "blocks ?e2 = blocks e"
    by (simp_all add: stepBackward_fields closeState_same cr R IT)
  have low2: "lowlinks ?e2 = (lowlinks e)(p := min (lowlinks e p) (lowlinks e cur))"
    by (simp add: stepBackward_fields closeState_same)
  have low_le: "lowlinks ?e2 g \<le> lowlinks e g" for g unfolding low2 by simp
  have low_p: "lowlinks ?e2 p \<le> lowlinks e cur" unfolding low2 by simp
  have sc: "scanned m ?e2 (Suc q) v =
     (if v = p then insert q (scanned m e it v) else scanned m e it v)" for v
    unfolding it by (rule scanned_return[OF R IT len d(1,2) fld(1,2)])
  have sv: "saved ?e2 = zip R2 IT2" by (simp add: saved_def fld)
  have s1: "invStruct m sub ?e2 (Suc q)"
  proof -
    have "subseq (p # R2) (tarjanStack e)" using sq unfolding R by (rule subseq_Cons')
    moreover have "last (p # R2) = last (tarjanStack e)" using la unfolding R by simp
    ultimately show ?thesis
      unfolding invStruct_def fld sv
      using di f(3) vs ci len ch ts so by auto
  qed
  have s2: "invExplored m sub ?e2 (Suc q)"
    using ex f(3) curT ch(2) unfolding invExplored_def sc fld
    by (auto split: if_splits)
  have cse: "closedStates ?e2 = closedStates e" by (simp add: closedStates_def fld)
  have s3: "invClosed m sub dn ?e2"
    using cl unfolding invClosed_def cse fld(9) .
  have s4: "invLow m sub ?e2 (Suc q)"
  proof (rule invLowI)
    fix g assume g: "g \<in> set (recursionStateStack ?e2)"
    then have gR: "g \<in> set (recursionStateStack e)" unfolding fld R by auto
    from l(1)[OF gR] obtain w where w: "lowlinks e g \<le> stateIndices e g"
      "w \<in> set (tarjanStack e)" "stateIndices e w = lowlinks e g" "(g, w) \<in> ?E\<^sup>*" by auto
    show "lowlinks ?e2 g \<le> stateIndices ?e2 g
        \<and> (\<exists>w \<in> set (tarjanStack ?e2). stateIndices ?e2 w = lowlinks ?e2 g \<and> (g, w) \<in> ?E\<^sup>*)"
    proof (cases "lowlinks ?e2 g = lowlinks e g")
      case True
      with w show ?thesis unfolding fld by auto
    next
      case False
      then have gp: "g = p" and eq: "lowlinks ?e2 p = lowlinks e cur"
        unfolding low2 by (auto simp: min_def split: if_splits)
      from l(1)[OF curR] obtain w' where w': "w' \<in> set (tarjanStack e)"
        "stateIndices e w' = lowlinks e cur" "(cur, w') \<in> ?E\<^sup>*" by auto
      from edge w'(3) have "(p, w') \<in> ?E\<^sup>*" by auto
      with w' eq gp low_le[of p] w(1) show ?thesis unfolding fld by auto
    qed
  next
    fix v j g
    assume a: "v \<in> set (tarjanStack ?e2)" "j \<in> scanned m ?e2 (Suc q) v"
      "target m v j \<in> set (tarjanStack ?e2)" "nearest ?e2 g v"
    from a(1) have vT: "v \<in> set (tarjanStack e)" unfolding fld .
    from a(3) have tT: "target m v j \<in> set (tarjanStack e)" unfolding fld .
    show "lowlinks ?e2 g \<le> stateIndices ?e2 (target m v j)"
    proof (cases "j \<in> scanned m e it v")
      case False
      with a(2) have vj: "v = p" "j = q" unfolding sc by (auto split: if_splits)
      have "nearest ?e2 g p" using a(4) vj by simp
      then have "g \<in> set (p # R2)" "stateIndices e p \<le> stateIndices e g"
        unfolding nearest_def fld by auto
      with idxR2[of g] have "g = p" by (cases "g = p") auto
      with low_p lowc vj ch(2) show ?thesis unfolding fld by simp
    next
      case True
      show ?thesis
      proof (cases "stateIndices e v < stateIndices e cur")
        case True
        with a(4) have "nearest e g v"
          using nearest_return_low[of e cur "p # R2" ?e2 v g] R fld by simp
        from l(2)[OF vT \<open>j \<in> scanned m e it v\<close> tT this] low_le[of g]
        show ?thesis unfolding fld by simp
      next
        case False
        then have ge: "stateIndices e cur \<le> stateIndices e v" by simp
        from nearest_return_high[OF st R fld(1) fld(5) ge a(4)] have gp: "g = p" .
        have "nearest e cur v"
          unfolding nearest_def using curR ge invStruct_top_max[OF st] cur by auto
        from l(2)[OF vT True tT this] low_p gp
        show ?thesis unfolding fld by simp
      qed
    qed
  next
    fix v w assume "v \<in> set (tarjanStack ?e2)" "w \<in> set (tarjanStack ?e2)"
      "stateIndices ?e2 v \<le> stateIndices ?e2 w"
    then show "(v, w) \<in> ?E\<^sup>*" using l(3)[of v w] unfolding fld by auto
  next
    fix v assume "v \<in> set (tarjanStack ?e2)"
    then have vT: "v \<in> set (tarjanStack e)" unfolding fld .
    from l(4)[OF vT] obtain g where g: "g \<in> set (recursionStateStack e)"
      "stateIndices e g \<le> stateIndices e v" "(v, g) \<in> ?E\<^sup>*" by auto
    show "\<exists>g \<in> set (recursionStateStack ?e2).
           stateIndices ?e2 g \<le> stateIndices ?e2 v \<and> (v, g) \<in> ?E\<^sup>*"
    proof (cases "g = cur")
      case False
      with g show ?thesis unfolding fld R by auto
    next
      case True
      from l(1)[OF curR] obtain w where w: "w \<in> set (tarjanStack e)"
        "stateIndices e w = lowlinks e cur" "(cur, w) \<in> ?E\<^sup>*" by auto
      from l(4)[OF w(1)] obtain g2 where g2: "g2 \<in> set (recursionStateStack e)"
        "stateIndices e g2 \<le> stateIndices e w" "(w, g2) \<in> ?E\<^sup>*" by auto
      have "g2 \<noteq> cur" using g2(2) w(2) lowc by auto
      moreover have "stateIndices e g2 \<le> stateIndices e v"
        using g2(2) w(2) lowc g(2) True by simp
      moreover have "(v, g2) \<in> ?E\<^sup>*" using g(3) True w(3) g2(3) by auto
      ultimately show ?thesis using g2(1) unfolding fld R by auto
    qed
  qed
  have s5: "invSelf m dn ?e2 (Suc q)"
    using se ch(2) d(1) unfolding invSelf_def sc fld R
    by (auto split: if_splits)
  show ?thesis unfolding tarjanInv_def using s1 s2 s3 s4 s5 X fld(4) by simp
qed

subsection \<open>The loop and the decomposition\<close>

lemma successorLoop_tarjanInv:
  assumes inv: "tarjanInv m sub dn X e it" and cur: "cur = hd (recursionStateStack e)"
    and sl: "successorLoop sub dn cur (drop it (getRows m cur)) it e = (e', r)"
  shows "recursionStateStack e' = recursionStateStack e"
    and "case r of
           Some pos \<Rightarrow> tarjanInv m sub dn X e' pos \<and> pos < length (getRows m cur)
                        \<and> target m cur pos |\<in>| sub \<and> target m cur pos |\<notin>| visitedStates e'
         | None \<Rightarrow> tarjanInv m sub dn X e' (length (getRows m cur))"
proof -
  show "recursionStateStack e' = recursionStateStack e"
    using successorLoop_frame[OF sl] by simp
  let ?P = "\<lambda>pos e1. tarjanInv m sub dn X e1 pos \<and> recursionStateStack e1 = recursionStateStack e"
  from inv have st: "invStruct m sub e it" by (simp add: tarjanInv_def)
  note f = invStruct_facts[OF st]
  have cv: "cur |\<in>| visitedStates e" using f(1,2,3) cur by auto
  have le: "it \<le> length (getRows m cur)" using st cur by (simp add: invStruct_def)
  have "case r of
           Some pos \<Rightarrow> ?P pos e' \<and> pos < length (getRows m cur)
                        \<and> fst (getRows m cur ! pos) |\<in>| sub
                        \<and> fst (getRows m cur ! pos) |\<notin>| visitedStates e'
         | None \<Rightarrow> ?P (length (getRows m cur)) e'"
  proof (rule successorLoop_rule[OF sl _ cv le])
    show "?P it e" using inv by simp
  next
    fix pos e1
    assume a: "?P pos e1" "pos < length (getRows m cur)" "cur |\<in>| visitedStates e1"
      "\<not> (fst (getRows m cur ! pos) |\<in>| sub \<and> fst (getRows m cur ! pos) |\<notin>| visitedStates e1)"
    have c1: "cur = hd (recursionStateStack e1)" using a(1) cur by simp
    have "tarjanInv m sub dn X (scanEntry sub dn cur (target m cur pos) e1) (Suc pos)"
      by (rule scanEntry_tarjanInv[OF _ c1 refl a(2)]) (use a in \<open>auto simp: target_def\<close>)
    then show "?P (Suc pos) (scanEntry sub dn cur (fst (getRows m cur ! pos)) e1)
            \<and> cur |\<in>| visitedStates (scanEntry sub dn cur (fst (getRows m cur ! pos)) e1)"
      using a(1,3) by (simp add: target_def scanEntry_fields)
  qed
  then show "case r of
           Some pos \<Rightarrow> tarjanInv m sub dn X e' pos \<and> pos < length (getRows m cur)
                        \<and> target m cur pos |\<in>| sub \<and> target m cur pos |\<notin>| visitedStates e'
         | None \<Rightarrow> tarjanInv m sub dn X e' (length (getRows m cur))"
    by (cases r) (simp_all add: target_def)
qed

lemma start_tarjanInv:
  assumes top: "topInv m sub dn e" and s: "s |\<in>| sub" "s |\<notin>| visitedStates e"
  shows "tarjanInv m sub dn (finsert s (visitedStates e))
           (discover s (e\<lparr> recursionStateStack := [s], recursionIteratorStack := [0],
                            statesWithSelfloop := {||},
                            statesThatCanLeaveTheirScc := {||} \<rparr>)) 0"
proof -
  let ?e0 = "e\<lparr> recursionStateStack := [s], recursionIteratorStack := [0],
                statesWithSelfloop := {||}, statesThatCanLeaveTheirScc := {||} \<rparr>"
  let ?e = "discover s ?e0"
  from top have T: "tarjanStack e = []" "tarjanStackStates e = {||}"
    and vs: "visitedStates e |\<subseteq>| sub" and cl: "invClosed m sub dn e"
    by (simp_all add: topInv_def)
  note c = invClosedD[OF cl]
  have fld: "recursionStateStack ?e = [s]" "recursionIteratorStack ?e = [0]"
    "tarjanStack ?e = [s]" "tarjanStackStates ?e = {|s|}"
    "visitedStates ?e = finsert s (visitedStates e)"
    "stateIndices ?e = (stateIndices e)(s := currentIndex e)"
    "lowlinks ?e = (lowlinks e)(s := currentIndex e)"
    "currentIndex ?e = currentIndex e + 1" "blocks ?e = blocks e"
    "statesWithSelfloop ?e = {||}"
    by (simp_all add: discover_def T)
  have sv: "saved ?e = []" by (simp add: saved_def fld)
  have cs: "closedStates ?e = closedStates e" "closedStates e = fset (visitedStates e)"
    using s(2) by (auto simp: closedStates_def fld T)
  have sc: "scanned m ?e 0 v = (if v = s then {} else {..<length (getRows m v)})" for v
    by (simp add: scanned_def fld sv)
  have s1: "invStruct m sub ?e 0"
    unfolding invStruct_def fld sv using vs s(1) by simp
  have s2: "invExplored m sub ?e 0"
    unfolding invExplored_def sc fld
    using c(1) target_successors[of _ m] unfolding cs(2) by auto
  have s3: "invClosed m sub dn ?e"
    using cl unfolding invClosed_def cs(1) fld(9) .
  have s4: "invLow m sub ?e 0"
    unfolding invLow_def fld sc by simp
  have s5: "invSelf m dn ?e 0"
    unfolding invSelf_def fld sc by simp
  show ?thesis unfolding tarjanInv_def using s1 s2 s3 s4 s5 by (simp add: fld)
qed


lemma enter_forward:
  "enter m ob recursionStepForward e =
     (discover (hd (recursionStateStack e)) e, hd (recursionIteratorStack e))"
  by (simp add: enter_def Let_def)

lemma enter_backward:
  "enter m False recursionStepBackward e =
     (stepBackward False (hd (recursionStateStack e))
        (target m (hd (recursionStateStack e)) (hd (recursionIteratorStack e))) e,
      Suc (hd (recursionIteratorStack e)))"
  by (simp add: enter_def Let_def target_def)

lemma enter_stack:
  "recursionStateStack (fst (enter m False lbl e)) = recursionStateStack e"
  by (cases lbl) (simp_all add: enter_forward enter_backward discover_def stepBackward_fields)

lemma helperLoop_tarjanInv:
  assumes ne: "recursionStateStack e \<noteq> []"
    and inv: "tarjanInv m sub dn X (fst (enter m False lbl e)) (snd (enter m False lbl e))"
  shows "topInv m sub dn (helperLoop m sub dn False lbl e)
         \<and> X |\<subseteq>| visitedStates (helperLoop m sub dn False lbl e)"
proof (rule helperLoop_rule[where
      I = "\<lambda>lbl e. recursionStateStack e \<noteq> []
             \<and> tarjanInv m sub dn X (fst (enter m False lbl e)) (snd (enter m False lbl e))"
      and Q = "\<lambda>e. topInv m sub dn e \<and> X |\<subseteq>| visitedStates e"], goal_cases)
  case 1
  show ?case using ne inv by simp
next
  case (2 lbl e e1 it e2 pos)
  let ?cur = "hd (recursionStateStack e)"
  have inv1: "tarjanInv m sub dn X e1 it" using 2(1,3) by simp
  have cur1: "?cur = hd (recursionStateStack e1)"
    using enter_stack[of m lbl e] 2(3) by simp
  note sl = successorLoop_tarjanInv[OF inv1 cur1 2(4)]
  from sl(2) have inv2: "tarjanInv m sub dn X e2 pos" and lt: "pos < length (getRows m ?cur)"
    and c: "target m ?cur pos |\<in>| sub" "target m ?cur pos |\<notin>| visitedStates e2"
    by simp_all
  have cur2: "hd (recursionStateStack e2) = ?cur" using sl(1) cur1 by simp
  let ?c = "fst (getRows m ?cur ! pos)"
  have tc: "?c = target m ?cur pos" by (simp add: target_def)
  have "tarjanInv m sub dn X (discover ?c (descend ?c pos e2)) 0"
    unfolding tc
    by (rule descend_tarjanInv[OF inv2]) (use lt c cur2 in simp_all)
  moreover have "enter m False recursionStepForward (descend ?c pos e2)
                   = (discover ?c (descend ?c pos e2), 0)"
    by (simp add: enter_forward descend_def)
  ultimately show ?case by (simp add: descend_def)
next
  case (3 lbl e e1 it e2)
  let ?cur = "hd (recursionStateStack e)"
  have inv1: "tarjanInv m sub dn X e1 it" using 3(1,3) by simp
  have cur1: "?cur = hd (recursionStateStack e1)"
    using enter_stack[of m lbl e] 3(3) by simp
  note sl = successorLoop_tarjanInv[OF inv1 cur1 3(4)]
  from sl(2) have inv2: "tarjanInv m sub dn X e2 (length (getRows m ?cur))" by simp
  have cur2: "?cur = hd (recursionStateStack e2)" using sl(1) cur1 by simp
  from inv2 have st2: "invStruct m sub e2 (length (getRows m ?cur))"
    by (simp add: tarjanInv_def)
  let ?e3 = "closeState dn False ?cur e2"
  show ?case
  proof (cases "tl (recursionStateStack e2) = []")
    case True
    from final_topInv[OF inv2 refl cur2 True] True
    show ?thesis by (simp add: closeState_same)
  next
    case False
    from return_frames[OF st2 False] obtain p q R2 IT2 i0 where
      fr: "recursionStateStack e2 = hd (recursionStateStack e2) # p # R2"
      "recursionIteratorStack e2 = i0 # q # IT2" "length IT2 = length R2"
      "q < length (getRows m p)" "target m p q = hd (recursionStateStack e2)"
      "chain m p (zip R2 IT2)" "p \<noteq> hd (recursionStateStack e2)"
      "hd (recursionStateStack e2) \<notin> set R2" "p \<notin> set R2"
      by metis
    note fr' = fr[folded cur2]
    have R3: "recursionStateStack ?e3 = p # R2" "recursionIteratorStack ?e3 = q # IT2"
      using fr'(1,2) by (simp_all add: closeState_same)
    have en: "enter m False recursionStepBackward ?e3 = (stepBackward False p ?cur ?e3, Suc q)"
      by (simp add: enter_backward R3 fr'(5))
    have "tarjanInv m sub dn X (stepBackward False p ?cur ?e3) (Suc q)"
    proof (cases "lowlinks e2 ?cur = stateIndices e2 ?cur")
      case True
      show ?thesis
        by (rule root_return_tarjanInv[OF inv2 refl cur2 True fr'(1,2,3,4,5,6,7,8,9)])
    next
      case False
      show ?thesis
        by (rule nonroot_return_tarjanInv[OF inv2 refl cur2 False fr'(1,2,3,4,5,6,7,8,9)])
    qed
    then show ?thesis using R3 en by simp
  qed
next
  case (4 lbl e)
  then show ?case by simp
qed

lemma startSearch_topInv:
  assumes top: "topInv m sub dn e" and s: "s |\<in>| sub"
  shows "topInv m sub dn (startSearch m sub dn False s e)"
    and "finsert s (visitedStates e) |\<subseteq>| visitedStates (startSearch m sub dn False s e)"
proof -
  let ?e0 = "e\<lparr> recursionStateStack := [s], recursionIteratorStack := [0],
                statesWithSelfloop := {||}, statesThatCanLeaveTheirScc := {||} \<rparr>"
  have "topInv m sub dn (startSearch m sub dn False s e)
     \<and> finsert s (visitedStates e) |\<subseteq>| visitedStates (startSearch m sub dn False s e)"
  proof (cases "s |\<in>| visitedStates e")
    case True
    then show ?thesis using top by (auto simp: startSearch_def)
  next
    case False
    have en: "enter m False recursionStepForward ?e0 = (discover s ?e0, 0)"
      by (simp add: enter_forward)
    have "topInv m sub dn (helperLoop m sub dn False recursionStepForward ?e0)
         \<and> finsert s (visitedStates e)
             |\<subseteq>| visitedStates (helperLoop m sub dn False recursionStepForward ?e0)"
      by (rule helperLoop_tarjanInv) (use start_tarjanInv[OF top s False] en in simp_all)
    then show ?thesis using False
      by (simp add: startSearch_def performSccDecompositionHelper_def)
  qed
  then show "topInv m sub dn (startSearch m sub dn False s e)"
    and "finsert s (visitedStates e) |\<subseteq>| visitedStates (startSearch m sub dn False s e)"
    by simp_all
qed

lemma fold_startSearch_topInv:
  "topInv m sub dn e \<Longrightarrow> set xs \<subseteq> fset sub \<Longrightarrow>
   topInv m sub dn (fold (startSearch m sub dn False) xs e)
   \<and> set xs \<union> fset (visitedStates e)
        \<subseteq> fset (visitedStates (fold (startSearch m sub dn False) xs e))"
proof (induction xs arbitrary: e)
  case Nil then show ?case by simp
next
  case (Cons x xs)
  from Cons.prems have x: "x |\<in>| sub" by simp
  note ss = startSearch_topInv[OF Cons.prems(1) x]
  from Cons.IH[OF ss(1)] Cons.prems(2) ss(2) show ?case by auto
qed

lemma topInv_initialEnv: "topInv m sub dn initialEnv"
  by (simp add: topInv_def invClosed_def closedStates_def initialEnv_def)

text \<open>
  Without \<open>onlyBottomSccs\<close>, the blocks of the decomposition are the components of the
  states of the subsystem that are kept.
\<close>

theorem performSccDecomposition_sccs:
  "fset ` set (performSccDecomposition m sub dn False)
     = {sccOf m sub s | s. s |\<in>| sub \<and> keptScc m dn (sccOf m sub s)}"
proof -
  define e where "e = fold (startSearch m sub dn False) (sorted_list_of_fset sub) initialEnv"
  have "set (sorted_list_of_fset sub) \<subseteq> fset sub" by simp
  from fold_startSearch_topInv[OF topInv_initialEnv this, of m dn]
  have top: "topInv m sub dn e" and v: "fset sub \<subseteq> fset (visitedStates e)"
    unfolding e_def by simp_all
  from top have T: "tarjanStack e = []" and vs: "visitedStates e |\<subseteq>| sub"
    and cl: "invClosed m sub dn e" by (simp_all add: topInv_def)
  have "fset (visitedStates e) \<subseteq> fset sub" using vs by (simp add: less_eq_fset.rep_eq)
  with v have "fset (visitedStates e) = fset sub" by simp
  then have cs: "closedStates e = fset sub" by (simp add: closedStates_def T)
  note c = invClosedD[OF cl, unfolded cs]
  have bl: "performSccDecomposition m sub dn False = blocks e"
    by (simp add: performSccDecomposition_def e_def)
  show ?thesis unfolding bl
  proof (intro set_eqI iffI)
    fix S assume "S \<in> fset ` set (blocks e)"
    then obtain B where B: "B \<in> set (blocks e)" "S = fset B" by auto
    from c(2)[OF B(1)] obtain s where "s \<in> fset sub" "fset B = sccOf m sub s"
      "keptScc m dn (fset B)" by auto
    then show "S \<in> {sccOf m sub s | s. s |\<in>| sub \<and> keptScc m dn (sccOf m sub s)}"
      using B(2) by auto
  next
    fix S assume "S \<in> {sccOf m sub s | s. s |\<in>| sub \<and> keptScc m dn (sccOf m sub s)}"
    then obtain s where s: "s |\<in>| sub" "keptScc m dn (sccOf m sub s)" "S = sccOf m sub s"
      by auto
    from c(3)[OF s(1,2)] obtain B where "B \<in> set (blocks e)" "fset B = sccOf m sub s" by auto
    then show "S \<in> fset ` set (blocks e)" using s(3) by (metis imageI)
  qed
qed

section \<open>Concrete models\<close>

text \<open>
  The line graph of the spec's scenario S2 (\<open>0 \<rightarrow> 1 \<rightarrow> 2\<close>, \<open>2 \<rightarrow> 2\<close>); a cycle
  \<open>0 \<rightarrow> 1 \<rightarrow> 2 \<rightarrow> 0\<close> whose state 2 also moves to the absorbing state 3 within its only
  choice; two states that both move to state 0; and a cycle \<open>0 \<rightarrow> 1 \<rightarrow> 0\<close> whose first
  entry is stored with weight 0. These are deterministic: the choice index is
  \<open>[0, 1, \<dots>, N]\<close>. In the last model state 0 has no choice and state 1 has a single
  choice, row 0, which leads to both states.
\<close>

definition lineGraph :: "real model" where
  "lineGraph = \<lparr> transitionMatrix = [[(1, 1)], [(2, 1)], [(2, 1)]],
                 nondeterministicChoiceIndices = [0, 1, 2, 3] \<rparr>"

definition forcedExit :: "real model" where
  "forcedExit = \<lparr> transitionMatrix = [[(1, 1)], [(2, 1)], [(0, 1/2), (3, 1/2)], [(3, 1)]],
                  nondeterministicChoiceIndices = [0, 1, 2, 3, 4] \<rparr>"

definition crossEdge :: "real model" where
  "crossEdge = \<lparr> transitionMatrix = [[(0, 1)], [(0, 1)]],
                 nondeterministicChoiceIndices = [0, 1, 2] \<rparr>"

definition zeroWeight :: "real model" where
  "zeroWeight = \<lparr> transitionMatrix = [[(1, 0)], [(0, 1)]],
                  nondeterministicChoiceIndices = [0, 1, 2] \<rparr>"

definition choiceless :: "real model" where
  "choiceless = \<lparr> transitionMatrix = [[(0, 1/2), (1, 1/2)]],
                  nondeterministicChoiceIndices = [0, 0, 1] \<rparr>"

section \<open>Notions of the specification\<close>

text \<open>
  The arcs of a MEC under its retained choices: \<open>s\<close> has an arc to \<open>t\<close> when a choice
  retained at \<open>s\<close> has \<open>t\<close> in its row and \<open>t\<close> is a state of the MEC.
\<close>

definition retainedArcs :: "'v model \<Rightarrow> MaximalEndComponent \<Rightarrow> (nat \<times> nat) set" where
  "retainedArcs m mec =
     {(s, t). \<exists>choices c. (s, choices) \<in> set mec \<and> c \<in> set choices
                \<and> t \<in> fst ` set (getRow m c) \<and> t \<in> fst ` set mec}"

text \<open>
  The set the specification gives for the next \<open>toCheck\<close>: the states of the block with a
  choice whose row contains a removed state.
\<close>

definition predecessorsInside :: "'v model \<Rightarrow> StateBlock \<Rightarrow> BitVector \<Rightarrow> BitVector" where
  "predecessorsInside m scc removed =
     ffilter (\<lambda>s. list_ex (\<lambda>c. list_ex (\<lambda>entry. fst entry |\<in>| removed) (getRow m c))
                      (choicesOf m s)) scc"

text \<open>
  The edges of the specification, through the entries of positive weight of the choice
  rows of a state, and the edges through all entries; the component of a state in a
  graph.
\<close>

definition positiveEdges :: "real model \<Rightarrow> BitVector \<Rightarrow> (nat \<times> nat) set" where
  "positiveEdges m subsystem =
     {(s, t). s |\<in>| subsystem \<and> t |\<in>| subsystem
              \<and> (\<exists>c \<in> set (choicesOf m s). \<exists>w. (t, w) \<in> set (getRow m c) \<and> 0 < w)}"

definition entryEdges :: "'v model \<Rightarrow> BitVector \<Rightarrow> (nat \<times> nat) set" where
  "entryEdges m subsystem =
     {(s, t). s |\<in>| subsystem \<and> t |\<in>| subsystem
              \<and> (\<exists>c \<in> set (choicesOf m s). \<exists>w. (t, w) \<in> set (getRow m c))}"

definition sccClass :: "(nat \<times> nat) set \<Rightarrow> nat \<Rightarrow> nat set" where
  "sccClass R s = {t. (s, t) \<in> R\<^sup>* \<and> (t, s) \<in> R\<^sup>*}"

lemma edges_entryEdges: "edges m sub = entryEdges m sub"
  by (auto simp: edges_def entryEdges_def successors_def getRows_def choicesOf_def) force+

lemma sccOf_sccClass: "sccOf m sub s = sccClass (edges m sub) s"
  by (simp add: sccOf_def sccClass_def)



lemma sccOf_finite: "finite (sccOf m sub s)"
proof -
  have "sccOf m sub s \<subseteq> insert s (fset sub)"
  proof
    fix x assume "x \<in> sccOf m sub s"
    then have "(s, x) \<in> (edges m sub)\<^sup>*" by (simp add: sccOf_def)
    then show "x \<in> insert s (fset sub)"
      by (induction rule: rtrancl_induct) (auto simp: edges_def)
  qed
  then show ?thesis by (rule finite_subset) simp
qed

lemma kept_iff_cycle:
  assumes "s |\<in>| sub"
  shows "keptScc m True (sccOf m sub s) \<longleftrightarrow> (s, s) \<in> (edges m sub)\<^sup>+"
proof
  let ?E = "edges m sub"
  assume k: "keptScc m True (sccOf m sub s)"
  show "(s, s) \<in> ?E\<^sup>+"
  proof (cases "card (sccOf m sub s) > 1")
    case True
    have "\<exists>t \<in> sccOf m sub s. t \<noteq> s"
    proof (rule ccontr)
      assume "\<not> ?thesis"
      then have "sccOf m sub s \<subseteq> {s}" by auto
      then have "card (sccOf m sub s) \<le> card {s}" by (intro card_mono) auto
      with True show False by simp
    qed
    then obtain t where t: "(s, t) \<in> ?E\<^sup>*" "(t, s) \<in> ?E\<^sup>*" "t \<noteq> s"
      by (auto simp: sccOf_def)
    from t(1,3) have "(s, t) \<in> ?E\<^sup>+" by (metis rtranclD)
    then show ?thesis using t(2) by (rule trancl_rtrancl_trancl)
  next
    case False
    with k obtain s' where s': "sccOf m sub s = {s'}" "s' \<in> successors m s'"
      by (auto simp: keptScc_def)
    with sccOf_self[of s m sub] have "s' = s" by auto
    with s'(2) assms have "(s, s) \<in> ?E" by (simp add: edges_def)
    then show ?thesis by auto
  qed
next
  let ?E = "edges m sub"
  assume "(s, s) \<in> ?E\<^sup>+"
  then obtain t where t: "(s, t) \<in> ?E" "(t, s) \<in> ?E\<^sup>*" by (metis tranclD)
  have two: "card (sccOf m sub s) > 1" if "x \<in> sccOf m sub s" "x \<noteq> s" for x
  proof -
    have "{s, x} \<subseteq> sccOf m sub s" using that(1) sccOf_self[of s m sub] by simp
    then have "card {s, x} \<le> card (sccOf m sub s)" by (intro card_mono sccOf_finite)
    with that(2) show ?thesis by simp
  qed
  show "keptScc m True (sccOf m sub s)"
  proof (cases "\<exists>x \<in> sccOf m sub s. x \<noteq> s")
    case True
    with two show ?thesis by (auto simp: keptScc_def)
  next
    case False
    then have single: "sccOf m sub s = {s}" using sccOf_self[of s m sub] by auto
    have "t \<in> sccOf m sub s" using t by (auto simp: sccOf_def)
    with single have "t = s" by simp
    with t(1) have "s \<in> successors m s" by (simp add: edges_def)
    with single show ?thesis by (auto simp: keptScc_def)
  qed
qed


section \<open>The claims\<close>

text \<open>
  C1 (every MEC block is nonempty, every state of it has a retained choice, retained
  choices stay inside, and the block is strongly connected under retained choices).
  On the line graph with the full subsystem the engine returns the single block
  \<open>{0, 1, 2}\<close>: the SCC engine, run with \<open>dropNaiveSccs\<close>, returns only \<open>{2}\<close>, the test
  \<open>sccs.size() > 1\<close> does not see the states dropped, nothing is pruned, and the candidate
  is kept. There is no path from 2 back to 0.
\<close>

theorem mec_line_graph:
  "performMaximalEndComponentDecomposition lineGraph {|0, 1, 2|}
     = Inr [[(0, [0]), (1, [1]), (2, [2])]]
   \<and> (2, 0) \<notin> (retainedArcs lineGraph [(0, [0]), (1, [1]), (2, [2])])\<^sup>*"
proof
  show "performMaximalEndComponentDecomposition lineGraph {|0, 1, 2|}
     = Inr [[(0, [0]), (1, [1]), (2, [2])]]" by code_simp
  let ?R = "retainedArcs lineGraph [(0, [0]), (1, [1]), (2, [2])]"
  have "?R `` {2} \<subseteq> {2}"
    by (auto simp: retainedArcs_def getRow_def lineGraph_def)
  then have closed: "?R\<^sup>* `` {2} = {2}" by (rule Image_closed_trancl)
  show "(2, 0) \<notin> ?R\<^sup>*"
  proof
    assume "(2, 0) \<in> ?R\<^sup>*"
    then have "0 \<in> ?R\<^sup>* `` {2}" by (rule ImageI) simp
    with closed show False by simp
  qed
qed




text \<open>
  C3 (after the erasure of \<open>toRemove\<close> the next \<open>toCheck\<close> is the set of predecessors,
  inside the SCC, of the removed states). On the cycle with the forced exit the SCC
  \<open>{0, 1, 2}\<close> loses state 2; the loop then reads row 2 of the forward matrix and sets
  the successor 0 of the removed state, where the predecessor is 1.
\<close>

theorem prune_reconsiders_successors:
  "performSccDecomposition forcedExit {|0, 1, 2, 3|} True False = [{|3|}, {|0, 1, 2|}]
   \<and> statesToRemoveOf forcedExit {|0, 1, 2|} {|0, 1, 2|} = {|2|}
   \<and> reconsider forcedExit ({|0, 1, 2|} |-| {|2|}) {|2|} = Inr {|0|}
   \<and> predecessorsInside forcedExit ({|0, 1, 2|} |-| {|2|}) {|2|} = {|1|}"
  by code_simp

text \<open>
  C4, as amended: every refinement pass obtains its SCC list by running the SCC engine
  with \<open>dropNaiveSccs\<close> set (line 70) and \<open>onlyBottomSccs\<close> unset; the list holds the
  SCCs of the states of the candidate that lie on a cycle inside the candidate, and
  covers exactly these states.
\<close>

theorem candidate_sccs_on_cycles:
  "sccsOfCandidate m K = performSccDecomposition m K True False
   \<and> fset ` set (sccsOfCandidate m K)
       = {sccOf m K s | s. s |\<in>| K \<and> (s, s) \<in> (edges m K)\<^sup>+}
   \<and> \<Union> (fset ` set (sccsOfCandidate m K)) = {s. s |\<in>| K \<and> (s, s) \<in> (edges m K)\<^sup>+}"
proof -
  let ?E = "edges m K"
  have a: "fset ` set (sccsOfCandidate m K) = {sccOf m K s | s. s |\<in>| K \<and> (s, s) \<in> ?E\<^sup>+}"
    unfolding sccsOfCandidate_def performSccDecomposition_sccs
    using kept_iff_cycle[of _ K m] by auto
  have b: "\<Union> {sccOf m K s | s. s |\<in>| K \<and> (s, s) \<in> ?E\<^sup>+} = {s. s |\<in>| K \<and> (s, s) \<in> ?E\<^sup>+}"
  proof (intro set_eqI iffI)
    fix x assume "x \<in> \<Union> {sccOf m K s | s. s |\<in>| K \<and> (s, s) \<in> ?E\<^sup>+}"
    then obtain s where s: "s |\<in>| K" "(s, s) \<in> ?E\<^sup>+" "(s, x) \<in> ?E\<^sup>*" "(x, s) \<in> ?E\<^sup>*"
      by (auto simp: sccOf_def)
    have "(x, s) \<in> ?E\<^sup>+" using s(4,2) by (rule rtrancl_trancl_trancl)
    then have "(x, x) \<in> ?E\<^sup>+" using s(3) by (rule trancl_rtrancl_trancl)
    moreover have "x |\<in>| K" using s(3) s(1)
      by (induction rule: rtrancl_induct) (auto simp: edges_def)
    ultimately show "x \<in> {s. s |\<in>| K \<and> (s, s) \<in> ?E\<^sup>+}" by simp
  next
    fix x assume "x \<in> {s. s |\<in>| K \<and> (s, s) \<in> ?E\<^sup>+}"
    then show "x \<in> \<Union> {sccOf m K s | s. s |\<in>| K \<and> (s, s) \<in> ?E\<^sup>+}"
      using sccOf_self[of x m K] by blast
  qed
  show ?thesis unfolding a b by (simp add: sccsOfCandidate_def)
qed

theorem candidate_sccs_on_cycles_witness:
  "sccsOfCandidate lineGraph {|0, 1, 2|} = [{|2|}]
   \<and> {s. s |\<in>| {|0, 1, 2|} \<and> (s, s) \<in> (edges lineGraph {|0, 1, 2|})\<^sup>+} = {2}"
proof -
  have a: "sccsOfCandidate lineGraph {|0, 1, 2|} = [{|2|}]" by code_simp
  note t = candidate_sccs_on_cycles[of lineGraph "{|0, 1, 2|}", unfolded a]
  note u = t[THEN conjunct2, THEN conjunct2]
  have b: "{s. s |\<in>| {|0, 1, 2|} \<and> (s, s) \<in> (edges lineGraph {|0, 1, 2|})\<^sup>+} = {2}"
    unfolding u[symmetric] by simp
  show ?thesis by (rule conjI[OF a b])
qed

text \<open>
  The claim C4 as stated (no drop-trivial option, so the SCC list covers every state of
  the candidate) fails on the line graph: the SCC list of the candidate \<open>{0, 1, 2}\<close> is
  \<open>[{2}]\<close>, where the engine without options returns three blocks.
\<close>

theorem candidate_sccs_not_covering:
  "sccsOfCandidate lineGraph {|0, 1, 2|} = [{|2|}]
   \<and> performSccDecomposition lineGraph {|0, 1, 2|} False False = [{|2|}, {|1|}, {|0|}]
   \<and> \<Union> (fset ` set (sccsOfCandidate lineGraph {|0, 1, 2|})) \<noteq> fset {|0, 1, 2|}"
proof -
  have a: "sccsOfCandidate lineGraph {|0, 1, 2|} = [{|2|}]" by code_simp
  have b: "performSccDecomposition lineGraph {|0, 1, 2|} False False = [{|2|}, {|1|}, {|0|}]"
    by code_simp
  have c: "\<Union> (fset ` set (sccsOfCandidate lineGraph {|0, 1, 2|})) \<noteq> fset {|0, 1, 2|}"
    unfolding a by auto
  show ?thesis
    apply (rule conjI[OF a])
    apply (rule conjI[OF b])
    apply (rule c)
    done
qed

text \<open>
  C5 (with \<open>onlyBottomSccs\<close> every block is a bottom SCC, also when an edge leads to an
  SCC closed earlier). With the rows \<open>0 \<rightarrow> 0\<close> and \<open>1 \<rightarrow> 0\<close> the block \<open>{1}\<close> is
  returned although state 1 has the successor 0 outside it: the edge reaches a visited
  state that is no longer on the Tarjan stack, and that branch marks nothing.
\<close>

theorem scc_bottom_cross_edge:
  "performSccDecomposition crossEdge {|0, 1|} False True = [{|0|}, {|1|}]
   \<and> 0 \<in> fst ` set (getRows crossEdge 1) \<and> (0::nat) |\<in>| {|0, 1|} \<and> (0::nat) |\<notin>| {|1|}"
  by code_simp

text \<open>
  C6 (an empty subsystem gives a decomposition with zero blocks). For every model the
  engine returns one block, without states: the list of candidates starts with the empty
  subsystem, its pass changes nothing, and it is kept.
\<close>

theorem mec_empty_subsystem:
  "performMaximalEndComponentDecomposition m {||} = Inr [[]]"
proof -
  have "performSccDecomposition m {||} True False = []"
    by (simp add: performSccDecomposition_def sorted_list_of_fset_empty initialEnv_def)
  then have "refinementPass m {||} {||} = Inr ([], {||}, False)"
    by (simp add: refinementPass_def sccsOfCandidate_def)
  then have "mecLoop m ([], [{||}], {||}) = Inr [{||}]"
    by (simp add: mecLoop.simps pending_def)
  then show ?thesis
    by (simp add: performMaximalEndComponentDecomposition_def newMec_def
        sorted_list_of_fset_empty)
qed

text \<open>
  C7 (a singleton \<open>{s}\<close> without a self-choice is never a block of the output). State 0
  of the line graph has the only choice \<open>0 \<rightarrow> 1\<close>; with the subsystem \<open>{0}\<close> the engine
  returns the block \<open>{0}\<close> with no retained choice.
\<close>

theorem mec_singleton_without_self_choice:
  "performMaximalEndComponentDecomposition lineGraph {|0|} = Inr [[(0, [])]]
   \<and> \<not> list_ex (\<lambda>c. list_all (\<lambda>entry. fst entry = 0) (getRow lineGraph c))
               (choicesOf lineGraph 0)"
  by code_simp

text \<open>
  C8, as amended: in the graph the SCC engine traverses, a state \<open>s\<close> has an edge to
  \<open>t\<close> if and only if some choice row of \<open>s\<close> has an entry with column \<open>t\<close>, whatever the
  weight of the entry: the blocks of the engine are the components of that graph.
\<close>

theorem scc_graph_has_every_entry:
  "edges m subsystem = entryEdges m subsystem
   \<and> fset ` set (performSccDecomposition m subsystem False False)
       = {sccClass (entryEdges m subsystem) s | s. s |\<in>| subsystem}"
proof -
  have "fset ` set (performSccDecomposition m subsystem False False)
       = {sccOf m subsystem s | s. s |\<in>| subsystem}"
    unfolding performSccDecomposition_sccs by (simp add: keptScc_def)
  then show ?thesis
    unfolding sccOf_sccClass edges_entryEdges by simp
qed

theorem scc_graph_has_every_entry_witness:
  "(0, 1) \<in> entryEdges zeroWeight {|0, 1|}
   \<and> {sccClass (entryEdges zeroWeight {|0, 1|}) s | s. s |\<in>| {|0, 1|}} = {{0, 1}}"
proof -
  have a: "performSccDecomposition zeroWeight {|0, 1|} False False = [{|0, 1|}]" by code_simp
  note t = scc_graph_has_every_entry[of zeroWeight "{|0, 1|}", unfolded a]
  have b: "{sccClass (entryEdges zeroWeight {|0, 1|}) s | s. s |\<in>| {|0, 1|}} = {{0, 1}}"
    unfolding t[THEN conjunct2, symmetric] by simp
  have c: "(0, 1) \<in> entryEdges zeroWeight {|0, 1|}"
    unfolding t[THEN conjunct1, symmetric]
    by (simp add: edges_def successors_def getRows_def getRow_def zeroWeight_def)
  show ?thesis by (rule conjI[OF c b])
qed

text \<open>
  The claim C8 as stated (an entry of non-positive weight induces no edge) fails: the
  traversal (lines 127-168) reads only the column of an entry. With the rows \<open>0 \<rightarrow> 1\<close> of
  weight 0 and \<open>1 \<rightarrow> 0\<close> of weight 1 the engine returns the single SCC \<open>{0, 1}\<close>, which
  the edges of positive weight do not connect.
\<close>

theorem scc_zero_weight_edge:
  "performSccDecomposition zeroWeight {|0, 1|} False False = [{|0, 1|}]
   \<and> (0, 1) \<notin> positiveEdges zeroWeight {|0, 1|}
   \<and> 1 \<notin> sccClass (positiveEdges zeroWeight {|0, 1|}) 0"
proof -
  have a: "performSccDecomposition zeroWeight {|0, 1|} False False = [{|0, 1|}]" by code_simp
  let ?P = "positiveEdges zeroWeight {|0, 1|}"
  have img: "?P `` {0} \<subseteq> {0}"
    by (auto simp: positiveEdges_def choicesOf_def getRow_def zeroWeight_def)
  then have b: "(0, 1) \<notin> ?P" by auto
  from img have "?P\<^sup>* `` {0} = {0}" by (rule Image_closed_trancl)
  then have "(0, 1) \<notin> ?P\<^sup>*" by auto
  then have c: "1 \<notin> sccClass ?P 0" by (simp add: sccClass_def)
  show ?thesis
    apply (rule conjI[OF a])
    apply (rule conjI[OF b])
    apply (rule c)
    done
qed

text \<open>
  C9 (for every finite model and every subsystem the loop over the candidates ends after
  finitely many passes, each changed candidate being replaced by smaller ones). In the
  model \<open>choiceless\<close> state 0 has no choice and the matrix has the single row 0, the
  choice of state 1. The first pass on the candidate \<open>{0, 1}\<close> finds the SCC \<open>{1}\<close>
  and removes state 1 from it, since its only choice also leads to state 0; line 111
  then reads the row whose index is the number of the removed state, row 1, which the
  matrix does not have, and the pass is not completed.
\<close>

theorem mec_reads_missing_row:
  "length (transitionMatrix choiceless) = 1
   \<and> sccsOfCandidate choiceless {|0, 1|} = [{|1|}]
   \<and> statesToRemoveOf choiceless {|1|} {|1|} = {|1|}
   \<and> reconsider choiceless ({|1|} |-| {|1|}) {|1|} = Inl RowOutOfRange
   \<and> performMaximalEndComponentDecomposition choiceless {|0, 1|} = Inl RowOutOfRange"
  by code_simp

end
